theory Spec2Isabelle
  imports Main "HOL-Library.Finite_Map"
begin

section \<open>Strings\<close>

text \<open>
  A Python \<open>str\<close> is a sequence of code points. The model reads a \<^typ>\<open>char\<close> as a code
  point below 256, so a \<^typ>\<open>string\<close> is a Python string over that range. On it
  \<open>str.isspace\<close> holds for 0x09-0x0D, 0x1C-0x1F, 0x20, 0x85 and 0xA0, and \<open>str.lower\<close>
  maps A-Z and 0xC0-0xDE (without 0xD7) to the code point 32 above and leaves the rest.
\<close>

definition py_isspace :: "char \<Rightarrow> bool" where
  "py_isspace c =
     (let n = (of_char c :: nat)
      in (9 \<le> n \<and> n \<le> 13) \<or> (28 \<le> n \<and> n \<le> 32) \<or> n = 133 \<or> n = 160)"

definition py_lower :: "char \<Rightarrow> char" where
  "py_lower c =
     (let n = (of_char c :: nat)
      in if (65 \<le> n \<and> n \<le> 90) \<or> (192 \<le> n \<and> n \<le> 222 \<and> n \<noteq> 215)
         then char_of (n + 32) else c)"

text \<open>\<open>s.strip()\<close>: the whitespace at both ends is dropped.\<close>

definition strip :: "string \<Rightarrow> string" where
  "strip s = rev (dropWhile py_isspace (rev (dropWhile py_isspace s)))"

text \<open>\<open>s.lower()\<close>\<close>

definition lower :: "string \<Rightarrow> string" where
  "lower s = map py_lower s"

text \<open>\<open>s.startswith(c)\<close> and \<open>s.endswith(c)\<close> for a string \<open>c\<close> of one character.\<close>

definition startswith :: "string \<Rightarrow> char \<Rightarrow> bool" where
  "startswith s c = (case s of [] \<Rightarrow> False | x # _ \<Rightarrow> x = c)"

definition endswith :: "string \<Rightarrow> char \<Rightarrow> bool" where
  "endswith s c = (case rev s of [] \<Rightarrow> False | x # _ \<Rightarrow> x = c)"

section \<open>services/canonicalize.py\<close>

text \<open>
  \<open>canon_email\<close>: \<open>e = (e or "").strip().lower()\<close>, then \<open>e[1:-1]\<close> when \<open>e\<close> starts with
  \<open><\<close> and ends with \<open>>\<close>. On a string \<open>e or ""\<close> is \<open>e\<close>; the slice \<open>e[1:-1]\<close> is
  \<^term>\<open>butlast (tl e)\<close>.
\<close>

definition canon_email :: "string \<Rightarrow> string" where
  "canon_email e0 =
     (let e = lower (strip e0)
      in if startswith e CHR ''<'' \<and> endswith e CHR ''>'' then butlast (tl e) else e)"

section \<open>services/extraction.py\<close>

subsection \<open>The pattern \<open>EMAIL_RE\<close>\<close>

text \<open>
  \<open>[A-Za-z0-9._%+\-]+@[A-Za-z0-9.\-]+\.[A-Za-z]{2,}\<close>, compiled with \<open>re.IGNORECASE\<close>.
  Below code point 256 the three classes match the same characters with and without
  the flag.
\<close>

definition is_alpha :: "char \<Rightarrow> bool" where
  "is_alpha c =
     (let n = (of_char c :: nat) in (65 \<le> n \<and> n \<le> 90) \<or> (97 \<le> n \<and> n \<le> 122))"

definition is_digit :: "char \<Rightarrow> bool" where
  "is_digit c = (let n = (of_char c :: nat) in 48 \<le> n \<and> n \<le> 57)"

definition local_class :: "char \<Rightarrow> bool" where
  "local_class c = (is_alpha c \<or> is_digit c \<or> c \<in> set ''._%+-'')"

definition domain_class :: "char \<Rightarrow> bool" where
  "domain_class c = (is_alpha c \<or> is_digit c \<or> c \<in> set ''.-'')"

text \<open>
  The matcher of \<open>re\<close> is a backtracking one. A greedy repetition of a class first takes
  the longest run of the class and hands the rest of the text to what follows in the
  pattern; when that fails it gives one character back and tries again, down to the
  least number of repetitions. \<open>greedy lo n s k\<close> tries the lengths \<open>n\<close>, \<open>n - 1\<close>, ...,
  \<open>lo\<close> for the repetition at the head of \<open>s\<close>, with \<open>k\<close> the rest of the pattern. A
  successful match returns the text left after it.
\<close>

fun greedy :: "nat \<Rightarrow> nat \<Rightarrow> string \<Rightarrow> (string \<Rightarrow> string option) \<Rightarrow> string option" where
  "greedy lo 0 s k = (if lo = 0 then k s else None)"
| "greedy lo (Suc n) s k =
     (if Suc n < lo then None
      else case k (drop (Suc n) s) of
             Some r \<Rightarrow> Some r
           | None \<Rightarrow> greedy lo n s k)"

definition rep :: "(char \<Rightarrow> bool) \<Rightarrow> nat \<Rightarrow> string \<Rightarrow> (string \<Rightarrow> string option) \<Rightarrow> string option" where
  "rep cls lo s k = greedy lo (length (takeWhile cls s)) s k"

definition lit :: "char \<Rightarrow> string \<Rightarrow> (string \<Rightarrow> string option) \<Rightarrow> string option" where
  "lit c s k = (case s of [] \<Rightarrow> None | x # r \<Rightarrow> if x = c then k r else None)"

text \<open>\<open>EMAIL_RE.match\<close> at the head of \<open>s\<close>: the matched text, or \<open>None\<close>.\<close>

definition email_re_rest :: "string \<Rightarrow> string option" where
  "email_re_rest s =
     rep local_class 1 s (\<lambda>s1.
       lit CHR ''@'' s1 (\<lambda>s2.
         rep domain_class 1 s2 (\<lambda>s3.
           lit CHR ''.'' s3 (\<lambda>s4.
             rep is_alpha 2 s4 Some))))"

definition email_re_match :: "string \<Rightarrow> string option" where
  "email_re_match s =
     (case email_re_rest s of
        None \<Rightarrow> None
      | Some r \<Rightarrow> Some (take (length s - length r) s))"

text \<open>
  \<open>[m.group(0) for m in EMAIL_RE.finditer(s)]\<close>: the matches from left to right, the
  search going on where the last match ended. \<open>finditer_from n s\<close> has \<open>n\<close> characters
  of the last match still to pass.
\<close>

fun finditer_from :: "nat \<Rightarrow> string \<Rightarrow> string list" where
  "finditer_from n [] = []"
| "finditer_from (Suc n) (c # cs) = finditer_from n cs"
| "finditer_from 0 (c # cs) =
     (case email_re_match (c # cs) of
        None \<Rightarrow> finditer_from 0 cs
      | Some m \<Rightarrow> m # finditer_from (length m - 1) cs)"

definition finditer :: "string \<Rightarrow> string list" where
  "finditer s = finditer_from 0 s"

subsection \<open>The file system\<close>

text \<open>
  What the program reads from the operating system is a parameter of the model:
  \<open>os.path.exists\<close>, \<open>os.path.isfile\<close>, \<open>os.path.getsize\<close> (\<open>None\<close> for an \<open>OSError\<close>),
  \<open>os.walk\<close> (the roots with their file names), the lines ripgrep prints for a path
  (\<open>None\<close> when ripgrep is not installed or cannot be started), the decoded text of a file
  (\<open>None\<close> when it cannot be opened or read), and the clock.
\<close>

record env =
  path_exists :: "string \<Rightarrow> bool"
  isfile :: "string \<Rightarrow> bool"
  getsize :: "string \<Rightarrow> int option"
  walk :: "string \<Rightarrow> (string \<times> string list) list"
  rg_lines :: "string \<Rightarrow> string list option"
  read_text :: "string \<Rightarrow> string option"
  utcnow :: nat

text \<open>\<open>os.path.join(root, name)\<close> of \<open>posixpath\<close>.\<close>

definition path_join :: "string \<Rightarrow> string \<Rightarrow> string" where
  "path_join root name =
     (if startswith name CHR ''/'' then name
      else if root = [] \<or> endswith root CHR ''/'' then root @ name
      else root @ ''/'' @ name)"

definition iter_files :: "env \<Rightarrow> string \<Rightarrow> (string \<times> int) list" where
  "iter_files E path =
     (if isfile E path
      then (case getsize E path of Some sz \<Rightarrow> [(path, sz)] | None \<Rightarrow> [])
      else concat (map (\<lambda>(root, files).
             concat (map (\<lambda>name.
               let p = path_join root name
               in case getsize E p of Some sz \<Rightarrow> [(p, sz)] | None \<Rightarrow> []) files))
             (walk E path)))"

text \<open>
  \<open>os.path.splitext(path)[1]\<close> of \<open>posixpath\<close>: the text from the last dot of the last
  path component on, when a character other than a dot stands before that dot in the
  component; the empty string otherwise.
\<close>

definition splitext_ext :: "string \<Rightarrow> string" where
  "splitext_ext p =
     (let base = rev (takeWhile (\<lambda>c. c \<noteq> CHR ''/'') (rev p));
          ext = rev (takeWhile (\<lambda>c. c \<noteq> CHR ''.'') (rev base));
          stem = take (length base - length ext - 1) base
      in if CHR ''.'' \<in> set base \<and> (\<exists>c \<in> set stem. c \<noteq> CHR ''.'')
         then CHR ''.'' # ext else [])"

definition binary_exts :: "string list" where
  "binary_exts = [''.png'', ''.jpg'', ''.jpeg'', ''.gif'', ''.bmp'', ''.pdf'', ''.zip'',
                  ''.rar'', ''.7z'', ''.exe'', ''.dll'', ''.so'']"

definition looks_like_text :: "string \<Rightarrow> bool" where
  "looks_like_text path = (lower (splitext_ext path) \<notin> set binary_exts)"

text \<open>
  \<open>f.read(n)\<close> until the empty string: the text in pieces of \<open>n\<close> characters.
\<close>

function chunks :: "nat \<Rightarrow> string \<Rightarrow> string list" where
  "chunks n s = (if n = 0 \<or> s = [] then [] else take n s # chunks n (drop n s))"
  by pat_completeness auto
termination
  by (relation "measure (\<lambda>(n, s). length s)") auto

definition chunk_chars :: nat where
  "chunk_chars = 1024 * 1024 * 8"

text \<open>
  \<open>scan_file\<close>: with ripgrep, its output lines, stripped, the empty ones left out;
  without it the matches of the pattern in each piece of the text, and nothing for a
  file that cannot be read.
\<close>

definition scan_file :: "env \<Rightarrow> string \<Rightarrow> string list" where
  "scan_file E path =
     (case rg_lines E path of
        Some lines \<Rightarrow> filter (\<lambda>l. l \<noteq> []) (map strip lines)
      | None \<Rightarrow>
          (case read_text E path of
             None \<Rightarrow> []
           | Some text \<Rightarrow> concat (map finditer (chunks chunk_chars text))))"

section \<open>models.py\<close>

text \<open>
  The rows of the two tables. The wall-clock and floating-point columns of a job
  (\<open>mbps\<close>, \<open>eta_seconds\<close>, \<open>created_ts\<close>, \<open>started_ts\<close>, \<open>finished_ts\<close>) are left out. The
  table \<open>jobs\<close> is the list of its rows, with the column \<open>id\<close> as \<open>jid\<close>; an email row is
  found under its \<open>email\<close> column, the unique key of the table \<open>emails\<close>.
\<close>

record job =
  jid :: nat
  name :: string
  status :: string
  processed_bytes :: int
  total_bytes :: int
  emails_found :: int
  include_domains :: string
  deny_domains :: string
  business_only :: bool
  workers :: int
  chunk_mb :: int
  paused :: bool
  cancelled :: bool

record email_row =
  first_seen_ts :: nat
  last_seen_ts :: nat
  seen_count :: int

record db =
  jobs :: "job list"
  emails :: "(string, email_row) fmap"

text \<open>\<open>db.get(Job, job_id)\<close>\<close>

definition db_get :: "db \<Rightarrow> nat \<Rightarrow> job option" where
  "db_get d i = find (\<lambda>j. jid j = i) (jobs d)"

text \<open>
  An \<open>UPDATE jobs SET ... WHERE id = i\<close>, and the write of changed attributes of the
  loaded row \<open>i\<close> at \<open>db.commit()\<close>: no row is touched when \<open>i\<close> names none.
\<close>

definition update_job :: "nat \<Rightarrow> (job \<Rightarrow> job) \<Rightarrow> db \<Rightarrow> db" where
  "update_job i f d = d\<lparr>jobs := map (\<lambda>j. if jid j = i then f j else j) (jobs d)\<rparr>"

text \<open>The id of a new row: one more than the largest id in the table.\<close>

definition fresh_id :: "job list \<Rightarrow> nat" where
  "fresh_id js = Suc (fold max (map jid js) 0)"

section \<open>app.py: the jobs API\<close>

text \<open>
  A handler takes the tables and returns what it answers, an \<open>HTTPException\<close> or a JSON
  body, with the tables it leaves. The two bodies are \<open>{"ok": True}\<close> and the
  \<open>id\<close>, \<open>name\<close>, \<open>status\<close> and \<open>total_bytes\<close> of a new job.
\<close>

datatype http_error = HTTPException nat string

datatype reply =
    Ok_true
  | Job_created nat string string int

text \<open>
  \<open>create_job\<close>, up to the start of the worker thread, which is \<open>worker_run\<close> below.
  \<open>os.path.isabs\<close> is that of \<open>posixpath\<close>: the path starts with a slash. \<open>x or y\<close> is
  \<open>y\<close> for an empty string and for 0.
\<close>

definition create_job ::
  "env \<Rightarrow> string \<Rightarrow> string option \<Rightarrow> int \<Rightarrow> string \<Rightarrow> string \<Rightarrow> int \<Rightarrow> bool \<Rightarrow> int \<Rightarrow> db
     \<Rightarrow> (http_error + reply) \<times> db" where
  "create_job E name0 server_path workers0 include_domains0 deny_domains0 chunk_mb0
     business_only0 limit_n d =
     (case server_path of
        None \<Rightarrow> (Inl (HTTPException 400 ''Provide server_path (file or folder)''), d)
      | Some sp \<Rightarrow>
          if sp = [] then (Inl (HTTPException 400 ''Provide server_path (file or folder)''), d)
          else if \<not> startswith sp CHR ''/'' then (Inl (HTTPException 400 ''Path must be absolute''), d)
          else if \<not> path_exists E sp then (Inl (HTTPException 400 ''Path not found''), d)
          else
            let files = iter_files E sp
            in if files = [] then (Inl (HTTPException 400 ''No readable files found''), d)
               else
                 let j = \<lparr> jid = fresh_id (jobs d),
                           name = (if strip name0 = [] then ''scan'' else strip name0),
                           status = ''queued'',
                           processed_bytes = 0,
                           total_bytes = sum_list (map snd files),
                           emails_found = 0,
                           include_domains = include_domains0,
                           deny_domains = deny_domains0,
                           business_only = business_only0,
                           workers = max 1 (min (if workers0 = 0 then 8 else workers0) 64),
                           chunk_mb = (if chunk_mb0 = 0 then 512 else chunk_mb0),
                           paused = False,
                           cancelled = False \<rparr>
                 in (Inr (Job_created (jid j) (name j) (status j) (total_bytes j)),
                     d\<lparr>jobs := jobs d @ [j]\<rparr>))"

text \<open>The four control commands, each one statement on the rows with the given id.\<close>

definition pause_job :: "nat \<Rightarrow> db \<Rightarrow> (http_error + reply) \<times> db" where
  "pause_job job_id d = (Inr Ok_true, update_job job_id (\<lambda>j. j\<lparr>paused := True\<rparr>) d)"

definition resume_job :: "nat \<Rightarrow> db \<Rightarrow> (http_error + reply) \<times> db" where
  "resume_job job_id d =
     (Inr Ok_true, update_job job_id (\<lambda>j. j\<lparr>paused := False, status := ''running''\<rparr>) d)"

definition cancel_job :: "nat \<Rightarrow> db \<Rightarrow> (http_error + reply) \<times> db" where
  "cancel_job job_id d =
     (Inr Ok_true, update_job job_id (\<lambda>j. j\<lparr>cancelled := True, status := ''cancelled''\<rparr>) d)"

definition delete_job :: "nat \<Rightarrow> db \<Rightarrow> (http_error + reply) \<times> db" where
  "delete_job job_id d = (Inr Ok_true, d\<lparr>jobs := filter (\<lambda>j. jid j \<noteq> job_id) (jobs d)\<rparr>)"

section \<open>app.py: the worker\<close>

text \<open>
  The session is transactional: what \<open>db.execute\<close> wrote is in the tables after
  \<open>db.commit()\<close>, and a worker that raises before the commit leaves the tables as they
  were at its last commit. An exception therefore carries those tables. A commit expires
  the objects of the session: a \<open>db.get(Job, job_id)\<close> that comes after a commit reads
  the row as it is in the table at that moment, and one that comes with no commit since
  the last read hands back the object that the session holds, as it is.
\<close>

datatype exn = AttributeError

text \<open>The \<open>INSERT ... ON CONFLICT(email) DO UPDATE\<close> for one email.\<close>

definition upsert :: "nat \<Rightarrow> string \<Rightarrow> (string, email_row) fmap \<Rightarrow> (string, email_row) fmap" where
  "upsert now e m =
     (case fmlookup m e of
        None \<Rightarrow> fmupd e \<lparr>first_seen_ts = now, last_seen_ts = now, seen_count = 1\<rparr> m
      | Some r \<Rightarrow> fmupd e (r\<lparr>last_seen_ts := now, seen_count := seen_count r + 1\<rparr>) m)"

text \<open>
  \<open>_flush_emails(db, job, emails)\<close>. The set \<open>emails\<close> is a list without repetitions. With
  \<open>job\<close> being \<open>None\<close> the assignment to \<open>job.emails_found\<close> raises, after the statement was
  executed and before the commit.
\<close>

definition flush_emails :: "env \<Rightarrow> job option \<Rightarrow> string list \<Rightarrow> db \<Rightarrow> exn \<times> db + db" where
  "flush_emails E job batch d =
     (if batch = [] then Inr d
      else
        let em = fold (upsert (utcnow E)) batch (emails d)
        in case job of
             None \<Rightarrow> Inl (AttributeError, d)
           | Some j \<Rightarrow>
               Inr (update_job (jid j) (\<lambda>r. r\<lparr>emails_found := int (fcard (fmdom em))\<rparr>)
                      (d\<lparr>emails := em\<rparr>)))"

text \<open>\<open>_update_metrics(db, job, processed_bytes, t0)\<close>, without throughput and ETA.\<close>

definition update_metrics :: "job \<Rightarrow> int \<Rightarrow> db \<Rightarrow> db" where
  "update_metrics job pb d = update_job (jid job) (\<lambda>r. r\<lparr>processed_bytes := pb\<rparr>) d"

text \<open>
  The control commands run in other threads. The model lets them in where the worker
  reads the job record from the table: a list of commands before the read at the head
  of each file.
\<close>

datatype cmd = Pause nat | Resume nat | Cancel nat | Delete nat

fun run_cmd :: "cmd \<Rightarrow> db \<Rightarrow> db" where
  "run_cmd (Pause i) d = snd (pause_job i d)"
| "run_cmd (Resume i) d = snd (resume_job i d)"
| "run_cmd (Cancel i) d = snd (cancel_job i d)"
| "run_cmd (Delete i) d = snd (delete_job i d)"

text \<open>
  The pause loop, \<open>while job.paused: ...\<close>. The job was loaded at the head of the file and
  nothing was committed since, so the \<open>db.get(Job, job_id)\<close> of the loop finds it in the
  identity map of the session and hands it back as it is, without a read of the table:
  \<open>job'\<close> is \<open>job\<close>. The result is \<open>None\<close> when the loop does not end.
\<close>

partial_function (option) pause_wait :: "job \<Rightarrow> job option" where
  "pause_wait job =
     (if \<not> paused job then Some job
      else
        let job' = job
        in if cancelled job' then Some job'
           else pause_wait job')"

declare pause_wait.simps [code]

definition batch_size :: nat where
  "batch_size = 2000"

text \<open>The loop over the emails of one file; \<open>emails_batch.add\<close> is \<^const>\<open>List.insert\<close>.\<close>

fun scan_loop :: "env \<Rightarrow> job \<Rightarrow> string list \<Rightarrow> string list \<Rightarrow> db \<Rightarrow> exn \<times> db + string list \<times> db" where
  "scan_loop E job [] batch d = Inr (batch, d)"
| "scan_loop E job (email # rest) batch d =
     (let batch' = List.insert (canon_email email) batch
      in if length batch' \<ge> batch_size
         then (case flush_emails E (Some job) batch' d of
                 Inl x \<Rightarrow> Inl x
               | Inr d' \<Rightarrow> scan_loop E job rest [] d')
         else scan_loop E job rest batch' d)"

text \<open>The local variables of \<open>worker_run\<close> and the tables.\<close>

record wstate =
  w_job :: "job option"
  w_db :: db
  w_processed :: int
  w_batch :: "string list"

text \<open>
  One pass through the body of the loop over the files, for the file \<open>(path, fsize)\<close> with
  the commands \<open>coming\<close> in before the read of the job record: on to the next file, out
  of the loop by \<open>break\<close>, an exception, or a pause loop that does not end. The last two
  carry the tables as the worker leaves them.
\<close>

datatype step = Next wstate | Break wstate | Raised exn db | Polling db

definition loop_body :: "env \<Rightarrow> nat \<Rightarrow> string \<times> int \<Rightarrow> cmd list \<Rightarrow> wstate \<Rightarrow> step" where
  "loop_body E i file coming st =
     (let path = fst file; fsize = snd file;
          d1 = fold run_cmd coming (w_db st)
      in case db_get d1 i of
           None \<Rightarrow> Break (st\<lparr>w_job := None, w_db := d1\<rparr>)
         | Some job1 \<Rightarrow>
             if cancelled job1 then Break (st\<lparr>w_job := Some job1, w_db := d1\<rparr>)
             else
               (case pause_wait job1 of
                  None \<Rightarrow> Polling d1
                | Some job2 \<Rightarrow>
                    if cancelled job2 then Break (st\<lparr>w_job := Some job2, w_db := d1\<rparr>)
                    else if \<not> looks_like_text path
                    then
                      let pb = w_processed st + fsize
                      in Next (st\<lparr>w_job := Some job2, w_db := update_metrics job2 pb d1,
                                  w_processed := pb\<rparr>)
                    else
                      (case scan_loop E job2 (scan_file E path) (w_batch st) d1 of
                         Inl (e, dx) \<Rightarrow> Raised e dx
                       | Inr (batch, d3) \<Rightarrow>
                           let pb = w_processed st + fsize
                           in Next (st\<lparr>w_job := Some job2, w_db := update_metrics job2 pb d3,
                                       w_processed := pb, w_batch := batch\<rparr>))))"

text \<open>
  The loop over the files, \<open>sched\<close> holding the commands that come in at each file (none
  when the list is used up): the state in which the loop was left, by \<open>break\<close> or at the
  end of the files, an exception, or a pause loop that does not end.
\<close>

datatype loop_end = Loop_left wstate | Loop_raised exn db | Loop_polling db

fun worker_loop ::
  "env \<Rightarrow> nat \<Rightarrow> (string \<times> int) list \<Rightarrow> cmd list list \<Rightarrow> wstate \<Rightarrow> loop_end" where
  "worker_loop E i [] sched st = Loop_left st"
| "worker_loop E i (file # files) sched st =
     (case loop_body E i file (case sched of [] \<Rightarrow> [] | x # _ \<Rightarrow> x) st of
        Next st' \<Rightarrow> worker_loop E i files (tl sched) st'
      | Break st' \<Rightarrow> Loop_left st'
      | Raised e dx \<Rightarrow> Loop_raised e dx
      | Polling dx \<Rightarrow> Loop_polling dx)"

text \<open>After the loop: the final flush, then \<open>done\<close> for a job that is there and not cancelled.\<close>

definition worker_finish :: "env \<Rightarrow> nat \<Rightarrow> wstate \<Rightarrow> exn \<times> db + db" where
  "worker_finish E i st =
     (case flush_emails E (w_job st) (w_batch st) (w_db st) of
        Inl x \<Rightarrow> Inl x
      | Inr d1 \<Rightarrow>
          (case db_get d1 i of
             None \<Rightarrow> Inr d1
           | Some job \<Rightarrow>
               if cancelled job then Inr d1
               else Inr (update_metrics job (w_processed st)
                           (update_job i (\<lambda>r. r\<lparr>status := ''done''\<rparr>) d1))))"

text \<open>The \<open>except Exception\<close> branch.\<close>

definition on_error :: "nat \<Rightarrow> db \<Rightarrow> db" where
  "on_error i d =
     (case db_get d i of
        None \<Rightarrow> d
      | Some job \<Rightarrow> update_job i (\<lambda>r. r\<lparr>status := ''failed''\<rparr>) d)"

text \<open>
  How a worker thread comes out: it ends, or it stays in a pause loop for ever. Either
  way with the tables as it leaves them.
\<close>

datatype outcome = Ended db | Hangs db

fun tables :: "outcome \<Rightarrow> db" where
  "tables (Ended d) = d"
| "tables (Hangs d) = d"

text \<open>
  The run of the worker from the head of the loop on, with \<open>files\<close> still to come: the
  loop, what follows it, and the \<open>except\<close> branch.
\<close>

definition worker_from ::
  "env \<Rightarrow> nat \<Rightarrow> (string \<times> int) list \<Rightarrow> cmd list list \<Rightarrow> wstate \<Rightarrow> outcome" where
  "worker_from E i files sched st =
     (case worker_loop E i files sched st of
        Loop_polling dx \<Rightarrow> Hangs dx
      | Loop_raised e dx \<Rightarrow> Ended (on_error i dx)
      | Loop_left st' \<Rightarrow>
          (case worker_finish E i st' of
             Inl (e', dx') \<Rightarrow> Ended (on_error i dx')
           | Inr d' \<Rightarrow> Ended d'))"

text \<open>The body of \<open>worker_run(job_id, server_path)\<close>, under a schedule of commands.\<close>

definition worker_outcome :: "env \<Rightarrow> cmd list list \<Rightarrow> nat \<Rightarrow> string \<Rightarrow> db \<Rightarrow> outcome" where
  "worker_outcome E sched i server_path d =
     (case db_get d i of
        None \<Rightarrow> Ended d
      | Some job \<Rightarrow>
          let d0 = update_job i (\<lambda>r. r\<lparr>status := ''running'', processed_bytes := 0\<rparr>) d
          in worker_from E i (iter_files E server_path) sched
               \<lparr>w_job = Some job, w_db = d0, w_processed = 0, w_batch = []\<rparr>)"

text \<open>
  \<open>worker_run(job_id, server_path)\<close>: the tables when the thread ends, \<open>None\<close> when it does
  not end.
\<close>

definition worker_run :: "env \<Rightarrow> cmd list list \<Rightarrow> nat \<Rightarrow> string \<Rightarrow> db \<Rightarrow> db option" where
  "worker_run E sched i server_path d =
     (case worker_outcome E sched i server_path d of
        Ended d' \<Rightarrow> Some d'
      | Hangs d' \<Rightarrow> None)"

text \<open>
  The raw emails that a worker which is left alone takes from the files, in the order
  in which it takes them: those of the files that look like text.
\<close>

definition observed :: "env \<Rightarrow> (string \<times> int) list \<Rightarrow> string list" where
  "observed E files =
     concat (map (\<lambda>file. if looks_like_text (fst file) then scan_file E (fst file) else [])
               files)"

text \<open>The number of times the registry has seen a token: 0 for a token it does not hold.\<close>

definition seen_in :: "(string, email_row) fmap \<Rightarrow> string \<Rightarrow> int" where
  "seen_in m t = (case fmlookup m t of None \<Rightarrow> 0 | Some r \<Rightarrow> seen_count r)"

definition seen :: "db \<Rightarrow> string \<Rightarrow> int" where
  "seen d t = seen_in (emails d) t"

section \<open>Notions for the claims\<close>

text \<open>
  A sequence of flushes, one for each batch of a list, on behalf of one job.
\<close>

definition flush_all :: "env \<Rightarrow> job \<Rightarrow> string list list \<Rightarrow> db \<Rightarrow> db" where
  "flush_all E j batches d =
     fold (\<lambda>batch d. case flush_emails E (Some j) batch d of
                       Inl (e, dx) \<Rightarrow> dx
                     | Inr d' \<Rightarrow> d') batches d"

text \<open>
  What the loop over the emails does to the batch, the tables left aside: the batches
  that it flushes, in order, and the batch that it leaves.
\<close>

fun batching :: "string list \<Rightarrow> string list \<Rightarrow> string list list \<times> string list" where
  "batching [] batch = ([], batch)"
| "batching (email # rest) batch =
     (let batch' = List.insert (canon_email email) batch
      in if length batch' \<ge> batch_size
         then (batch' # fst (batching rest []), snd (batching rest []))
         else batching rest batch')"

text \<open>
  The batches that a job flushes when it takes the emails \<open>toks\<close>, the last of them by
  the final flush, which \<open>final\<close> says to have taken place.
\<close>

definition job_batches :: "string list \<Rightarrow> bool \<Rightarrow> string list list" where
  "job_batches toks final =
     fst (batching toks []) @ (if final then [snd (batching toks [])] else [])"





section \<open>Scenarios\<close>

text \<open>
  A file system without ripgrep. \<open>/one\<close> holds the one file \<open>a.txt\<close>; \<open>/data\<close> holds
  \<open>b.png\<close> and \<open>c.txt\<close>; \<open>/dup\<close> holds one file with the same address twice; \<open>/two\<close>
  holds two text files.
\<close>

definition demo_text :: "string \<Rightarrow> string option" where
  "demo_text p =
     (if p = ''/one/a.txt''
      then Some ''Contact: John.Doe@Example.COM and <jane@sub.example.org>''
      else if p = ''/data/b.png'' then Some ''png x@y.zz''
      else if p = ''/data/c.txt'' then Some ''mail bob@example.org''
      else if p = ''/dup/x.txt'' then Some ''a@b.co, A@B.co''
      else if p = ''/two/t1.txt'' then Some ''a@b.co''
      else if p = ''/two/t2.txt'' then Some ''c@d.org''
      else None)"

definition demo_fs :: env where
  "demo_fs =
     \<lparr> path_exists = (\<lambda>p. p \<in> set [''/one'', ''/data'', ''/dup'', ''/two'']
                               \<or> demo_text p \<noteq> None),
       isfile = (\<lambda>p. demo_text p \<noteq> None),
       getsize = (\<lambda>p. map_option (\<lambda>t. int (length t)) (demo_text p)),
       walk = (\<lambda>p. if p = ''/one'' then [(''/one'', [''a.txt''])]
                    else if p = ''/data'' then [(''/data'', [''b.png'', ''c.txt''])]
                    else if p = ''/dup'' then [(''/dup'', [''x.txt''])]
                    else if p = ''/two'' then [(''/two'', [''t1.txt'', ''t2.txt''])]
                    else []),
       rg_lines = (\<lambda>p. None),
       read_text = demo_text,
       utcnow = 5 \<rparr>"

definition db_empty :: db where
  "db_empty = \<lparr>jobs = [], emails = fmempty\<rparr>"

text \<open>The tables after the submission of a scan of \<open>path\<close> to the empty tables.\<close>

definition submitted :: "string \<Rightarrow> db" where
  "submitted path =
     snd (create_job demo_fs ''demo'' (Some path) 8 [] [] 512 False 0 db_empty)"

text \<open>The job row that a submission of \<open>tb\<close> bytes creates under id 1.\<close>

definition queued_job :: "int \<Rightarrow> job" where
  "queued_job tb =
     \<lparr> jid = 1, name = ''demo'', status = ''queued'', processed_bytes = 0,
       total_bytes = tb, emails_found = 0, include_domains = [], deny_domains = [],
       business_only = False, workers = 8, chunk_mb = 512, paused = False,
       cancelled = False \<rparr>"

text \<open>
  The state of a worker on \<open>/two\<close> at the head of the loop for the second file: the first
  file is scanned and its one address is in the batch, not in the registry.
\<close>

definition demo_mid :: wstate where
  "demo_mid =
     \<lparr> w_job = Some (queued_job 13),
       w_db = \<lparr>jobs = [(queued_job 13)\<lparr>status := ''running'', processed_bytes := 6\<rparr>],
               emails = fmempty\<rparr>,
       w_processed = 6,
       w_batch = [''a@b.co''] \<rparr>"

text \<open>\<open>demo_fs\<close> with ripgrep, which prints two lines for \<open>/one/a.txt\<close>.\<close>

definition demo_rg :: env where
  "demo_rg =
     demo_fs\<lparr>rg_lines :=
       (\<lambda>p. if p = ''/one/a.txt''
            then Some [''John.Doe@Example.COM\<newline>'', ''jane@sub.example.org\<newline>'']
            else None)\<rparr>"

section \<open>Facts about the job table\<close>

lemma db_get_jid: "db_get d i = Some j \<Longrightarrow> jid j = i"
  by (auto simp: db_get_def find_Some_iff)

lemma update_job_absent: "db_get d i = None \<Longrightarrow> update_job i f d = d"
  by (simp add: update_job_def db_get_def find_None_iff map_idI)

lemma find_update_row:
  assumes "\<And>j. jid (f j) = jid j"
  shows "find (\<lambda>j. jid j = i) (map (\<lambda>j. if jid j = k then f j else j) js) =
           (if k = i then map_option f (find (\<lambda>j. jid j = i) js)
            else find (\<lambda>j. jid j = i) js)"
  by (induction js) (auto simp: assms)

lemma db_get_update_job:
  "(\<And>j. jid (f j) = jid j) \<Longrightarrow>
   db_get (update_job k f d) i = (if k = i then map_option f (db_get d i) else db_get d i)"
  by (simp add: update_job_def db_get_def find_update_row)

lemma emails_update_job: "emails (update_job k f d) = emails d"
  by (simp add: update_job_def)

lemma fold_max_bounds: "a \<le> fold max xs a \<and> (\<forall>x \<in> set xs. x \<le> fold max xs (a :: nat))"
proof (induction xs arbitrary: a)
  case Nil
  show ?case by simp
next
  case (Cons x xs)
  from Cons.IH [of "max x a"] show ?case
    by auto
qed

lemma fresh_id_fresh: "find (\<lambda>j. jid j = fresh_id js) js = None"
proof -
  have "jid j < fresh_id js" if "j \<in> set js" for j
    using that fold_max_bounds [of 0 "map jid js"] by (auto simp: fresh_id_def less_Suc_eq_le)
  then show ?thesis
    by (fastforce simp: find_None_iff)
qed

lemma find_append_new: "find P xs = None \<Longrightarrow> find P (xs @ [x]) = (if P x then Some x else None)"
  by (induction xs) (auto split: if_splits)


section \<open>Facts about the pause loop\<close>

lemma pause_wait_not_paused: "\<not> paused job \<Longrightarrow> pause_wait job = Some job"
  by (subst pause_wait.simps) simp

lemma pause_wait_Some:
  "pause_wait job = Some job' \<Longrightarrow> job' = job \<and> (\<not> paused job \<or> cancelled job)"
  by (rule pause_wait.raw_induct
        [where P = "\<lambda>j j'. j' = j \<and> (\<not> paused j \<or> cancelled j)"])
     (auto simp: Let_def split: if_splits)

lemma pause_wait_polling: "paused job \<Longrightarrow> \<not> cancelled job \<Longrightarrow> pause_wait job = None"
  using pause_wait_Some [of job] by (cases "pause_wait job") auto

section \<open>The scenarios, evaluated\<close>

lemma demo_files_one: "iter_files demo_fs ''/one'' = [(''/one/a.txt'', 56)]"
  by (simp add: iter_files_def demo_fs_def demo_text_def path_join_def startswith_def
      endswith_def)

lemma demo_files_data:
  "iter_files demo_fs ''/data'' = [(''/data/b.png'', 10), (''/data/c.txt'', 20)]"
  by (simp add: iter_files_def demo_fs_def demo_text_def path_join_def startswith_def
      endswith_def)

lemma demo_files_dup: "iter_files demo_fs ''/dup'' = [(''/dup/x.txt'', 14)]"
  by (simp add: iter_files_def demo_fs_def demo_text_def path_join_def startswith_def
      endswith_def)

lemma demo_files_two:
  "iter_files demo_fs ''/two'' = [(''/two/t1.txt'', 6), (''/two/t2.txt'', 7)]"
  by (simp add: iter_files_def demo_fs_def demo_text_def path_join_def startswith_def
      endswith_def)

lemma demo_submitted_one:
  "submitted ''/one'' = \<lparr>jobs = [queued_job 56], emails = fmempty\<rparr>"
  by (simp add: submitted_def create_job_def demo_files_one startswith_def db_empty_def
      fresh_id_def queued_job_def strip_def py_isspace_def)
     (simp add: demo_fs_def)

lemma demo_submitted_data:
  "submitted ''/data'' = \<lparr>jobs = [queued_job 30], emails = fmempty\<rparr>"
  by (simp add: submitted_def create_job_def demo_files_data startswith_def db_empty_def
      fresh_id_def queued_job_def strip_def py_isspace_def)
     (simp add: demo_fs_def)

lemma demo_submitted_dup:
  "submitted ''/dup'' = \<lparr>jobs = [queued_job 14], emails = fmempty\<rparr>"
  by (simp add: submitted_def create_job_def demo_files_dup startswith_def db_empty_def
      fresh_id_def queued_job_def strip_def py_isspace_def)
     (simp add: demo_fs_def)

lemma demo_submitted_two:
  "submitted ''/two'' = \<lparr>jobs = [queued_job 13], emails = fmempty\<rparr>"
  by (simp add: submitted_def create_job_def demo_files_two startswith_def db_empty_def
      fresh_id_def queued_job_def strip_def py_isspace_def)
     (simp add: demo_fs_def)

lemma demo_looks:
  "\<not> looks_like_text ''/data/b.png''" "looks_like_text ''/data/c.txt''"
  "looks_like_text ''/one/a.txt''"
  "looks_like_text ''/dup/x.txt''" "looks_like_text ''/two/t1.txt''"
  "looks_like_text ''/two/t2.txt''"
  by code_simp+

lemma demo_finditer:
  "finditer ''Contact: John.Doe@Example.COM and <jane@sub.example.org>'' =
     [''John.Doe@Example.COM'', ''jane@sub.example.org'']"
  "finditer ''mail bob@example.org'' = [''bob@example.org'']"
  "finditer ''a@b.co, A@B.co'' = [''a@b.co'', ''A@B.co'']"
  "finditer ''a@b.co'' = [''a@b.co'']"
  "finditer ''c@d.org'' = [''c@d.org'']"
  by code_simp+

lemma demo_scan:
  "scan_file demo_fs ''/one/a.txt'' = [''John.Doe@Example.COM'', ''jane@sub.example.org'']"
  "scan_file demo_fs ''/data/c.txt'' = [''bob@example.org'']"
  "scan_file demo_fs ''/dup/x.txt'' = [''a@b.co'', ''A@B.co'']"
  "scan_file demo_fs ''/two/t1.txt'' = [''a@b.co'']"
  "scan_file demo_fs ''/two/t2.txt'' = [''c@d.org'']"
  by (simp_all add: scan_file_def demo_fs_def demo_text_def chunk_chars_def demo_finditer)

lemma demo_canon:
  "canon_email ''John.Doe@Example.COM'' = ''john.doe@example.com''"
  "canon_email ''jane@sub.example.org'' = ''jane@sub.example.org''"
  "canon_email ''bob@example.org'' = ''bob@example.org''"
  "canon_email ''a@b.co'' = ''a@b.co''"
  "canon_email ''A@B.co'' = ''a@b.co''"
  "canon_email ''c@d.org'' = ''c@d.org''"
  by code_simp+

lemmas worker_defs = worker_run_def worker_outcome_def worker_from_def loop_body_def
  worker_finish_def flush_emails_def upsert_def update_metrics_def update_job_def db_get_def
  batch_size_def on_error_def pause_job_def resume_job_def cancel_job_def delete_job_def
  queued_job_def fcard_finsert_if pause_wait_not_paused

lemma demo_utcnow: "utcnow demo_fs = 5"
  by (simp add: demo_fs_def)

lemmas demo_facts = demo_submitted_one demo_submitted_data demo_submitted_dup
  demo_submitted_two demo_files_one demo_files_data demo_files_dup demo_files_two
  demo_looks demo_scan demo_canon demo_utcnow

lemma demo_run_one:
  "worker_run demo_fs [] 1 ''/one'' (submitted ''/one'') =
     Some \<lparr>jobs = [(queued_job 56)\<lparr>status := ''done'', processed_bytes := 56,
                                     emails_found := 2\<rparr>],
            emails = fmupd ''john.doe@example.com''
                       \<lparr>first_seen_ts = 5, last_seen_ts = 5, seen_count = 1\<rparr>
                       (fmupd ''jane@sub.example.org''
                          \<lparr>first_seen_ts = 5, last_seen_ts = 5, seen_count = 1\<rparr> fmempty)\<rparr>"
  by (simp add: demo_facts worker_defs)

lemma demo_run_dup:
  "worker_run demo_fs [] 1 ''/dup'' (submitted ''/dup'') =
     Some \<lparr>jobs = [(queued_job 14)\<lparr>status := ''done'', processed_bytes := 14,
                                     emails_found := 1\<rparr>],
            emails = fmupd ''a@b.co''
                       \<lparr>first_seen_ts = 5, last_seen_ts = 5, seen_count = 1\<rparr> fmempty\<rparr>"
  by (simp add: demo_facts worker_defs)

lemma demo_run_cancel:
  "worker_run demo_fs [[], [Cancel 1]] 1 ''/two'' (submitted ''/two'') =
     Some \<lparr>jobs = [(queued_job 13)\<lparr>status := ''cancelled'', processed_bytes := 6,
                                     emails_found := 1, cancelled := True\<rparr>],
            emails = fmupd ''a@b.co''
                       \<lparr>first_seen_ts = 5, last_seen_ts = 5, seen_count = 1\<rparr> fmempty\<rparr>"
  by (simp add: demo_facts worker_defs)

section \<open>Claims about the control commands and the submission\<close>

text \<open>
  C9. Flushing an empty batch does nothing: the tables that \<open>_flush_emails\<close> returns are
  the tables it was given, so the registry is unchanged and \<open>emails_found\<close> of the job is
  not refreshed, whatever the job is.
\<close>

theorem flush_empty_batch_noop: "flush_emails E job [] d = Inr d"
  by (simp add: flush_emails_def)

text \<open>
  C5, as stated, fails: for a job id that names no job record, here 7 in the empty tables,
  none of the four control commands reports an error; each answers \<open>{"ok": True}\<close>.
\<close>

theorem unknown_id_reported_ok:
  "db_get db_empty 7 = None \<and> \<not> isl (fst (pause_job 7 db_empty))
   \<and> \<not> isl (fst (resume_job 7 db_empty)) \<and> \<not> isl (fst (cancel_job 7 db_empty))
   \<and> \<not> isl (fst (delete_job 7 db_empty))"
  by (simp add: db_get_def db_empty_def pause_job_def resume_job_def cancel_job_def
      delete_job_def)

text \<open>
  C5, amended. For every job id that names no job record, each of pause, resume, cancel and
  delete leaves the tables as they were and returns the ordinary answer \<open>{"ok": True}\<close>.
\<close>

theorem unknown_id_no_change:
  assumes "db_get d i = None"
  shows "pause_job i d = (Inr Ok_true, d) \<and> resume_job i d = (Inr Ok_true, d)
       \<and> cancel_job i d = (Inr Ok_true, d) \<and> delete_job i d = (Inr Ok_true, d)"
proof -
  from assms have "filter (\<lambda>j. jid j \<noteq> i) (jobs d) = jobs d"
    by (simp add: db_get_def find_None_iff)
  then have "delete_job i d = (Inr Ok_true, d)"
    by (simp add: delete_job_def)
  with assms show ?thesis
    by (simp add: pause_job_def resume_job_def cancel_job_def update_job_absent)
qed

theorem unknown_id_no_change_witness:
  "db_get db_empty 7 = None \<and> pause_job 7 db_empty = (Inr Ok_true, db_empty)
   \<and> resume_job 7 db_empty = (Inr Ok_true, db_empty)
   \<and> cancel_job 7 db_empty = (Inr Ok_true, db_empty)
   \<and> delete_job 7 db_empty = (Inr Ok_true, db_empty)"
proof -
  have h: "db_get db_empty 7 = None"
    by (simp add: db_get_def db_empty_def)
  show ?thesis
    using h unknown_id_no_change [OF h] by simp
qed

text \<open>
  C10, as stated, fails at \<open>w = 0\<close>: the record stores 8 workers, and
  \<open>max(1, min(0, 64))\<close> is 1.
\<close>

theorem workers_zero_stored_as_eight:
  "map_option workers
     (db_get (snd (create_job demo_fs ''demo'' (Some ''/one'') 0 [] [] 512 False 0 db_empty)) 1)
   = Some 8 \<and> max 1 (min (0 :: int) 64) = 1"
  by (simp add: create_job_def demo_files_one startswith_def db_empty_def
      fresh_id_def strip_def py_isspace_def db_get_def)
     (simp add: demo_fs_def)

text \<open>
  C10, amended. A submission is never rejected for its \<open>workers\<close> value: when it succeeds
  with one value it succeeds with the same answer with any other. The record it creates
  stores \<open>max(1, min(w', 64))\<close>, where \<open>w'\<close> is 8 for \<open>w = 0\<close> and \<open>w\<close> otherwise.
\<close>

theorem create_job_workers:
  assumes "fst (create_job E n sp w inc den cm bo lim d) = Inr (Job_created i nm st tb)"
  shows "map_option workers (db_get (snd (create_job E n sp w inc den cm bo lim d)) i)
           = Some (max 1 (min (if w = 0 then 8 else w) 64))
       \<and> fst (create_job E n sp w' inc den cm bo lim d) = Inr (Job_created i nm st tb)"
  using assms
  by (auto simp: create_job_def Let_def db_get_def fresh_id_fresh find_append_new
      split: option.splits if_splits)

theorem create_job_workers_witness:
  "fst (create_job demo_fs ''demo'' (Some ''/one'') 100 [] [] 512 False 0 db_empty)
     = Inr (Job_created 1 ''demo'' ''queued'' 56)
   \<and> map_option workers
       (db_get (snd (create_job demo_fs ''demo'' (Some ''/one'') 100 [] [] 512 False 0 db_empty)) 1)
     = Some 64
   \<and> fst (create_job demo_fs ''demo'' (Some ''/one'') (- 3) [] [] 512 False 0 db_empty)
     = Inr (Job_created 1 ''demo'' ''queued'' 56)"
proof -
  have h: "fst (create_job demo_fs ''demo'' (Some ''/one'') 100 [] [] 512 False 0 db_empty)
             = Inr (Job_created 1 ''demo'' ''queued'' 56)"
    by (simp add: create_job_def demo_files_one startswith_def db_empty_def
        fresh_id_def strip_def py_isspace_def)
       (simp add: demo_fs_def)
  show ?thesis
    using h create_job_workers [OF h, of "- 3"] by simp
qed

section \<open>Facts about strings\<close>

lemma of_char_lt: "(of_char c :: nat) < 256"
  by (metis of_char_mod_256 mod_less_divisor zero_less_numeral)

lemma of_char_py_lower:
  "(of_char (py_lower c) :: nat) =
     (let n = of_char c
      in if (65 \<le> n \<and> n \<le> 90) \<or> (192 \<le> n \<and> n \<le> 222 \<and> n \<noteq> 215) then n + 32 else n)"
  using of_char_lt [of c] by (auto simp: py_lower_def Let_def)

lemma py_lower_idem: "py_lower (py_lower c) = py_lower c"
  using of_char_lt [of c] by (auto simp: py_lower_def Let_def)

lemma py_isspace_lower: "py_isspace (py_lower c) = py_isspace c"
  by (auto simp: py_isspace_def of_char_py_lower Let_def)

lemma py_lower_eq_iff:
  assumes "(of_char a :: nat) < 65"
  shows "py_lower c = a \<longleftrightarrow> c = a"
proof
  assume "py_lower c = a"
  then have "(of_char (py_lower c) :: nat) = of_char a"
    by simp
  with assms have "(of_char c :: nat) = of_char a"
    by (auto simp: of_char_py_lower Let_def split: if_splits)
  then show "c = a"
    by (simp add: of_char_eq_iff)
next
  assume "c = a"
  with assms show "py_lower c = a"
    by (simp add: py_lower_def)
qed

lemma lower_lower: "lower (lower s) = lower s"
  by (simp add: lower_def py_lower_idem)

lemma dropWhile_isspace_lower:
  "dropWhile py_isspace (map py_lower s) = map py_lower (dropWhile py_isspace s)"
  by (induction s) (simp_all add: py_isspace_lower)

lemma strip_lower: "strip (lower s) = lower (strip s)"
  by (simp add: strip_def lower_def dropWhile_isspace_lower rev_map)

lemma dropWhile_same_length:
  assumes "length (dropWhile P s) = length s"
  shows "dropWhile P s = s"
proof -
  have "length (takeWhile P s) + length (dropWhile P s) = length s"
    by (metis length_append takeWhile_dropWhile_id)
  with assms have "takeWhile P s = []"
    by simp
  then show ?thesis
    by (metis append_Nil takeWhile_dropWhile_id)
qed

lemma length_strip_le: "length (strip s) \<le> length s"
proof -
  have "length (strip s) \<le> length (dropWhile py_isspace s)"
    using length_dropWhile_le [of py_isspace "rev (dropWhile py_isspace s)"]
    by (simp add: strip_def)
  also have "\<dots> \<le> length s"
    by (rule length_dropWhile_le)
  finally show ?thesis .
qed

lemma strip_same_length:
  assumes "length (strip s) = length s"
  shows "strip s = s"
proof -
  let ?t = "dropWhile py_isspace s"
  have a: "length (strip s) \<le> length ?t"
    using length_dropWhile_le [of py_isspace "rev ?t"] by (simp add: strip_def)
  have b: "length ?t \<le> length s"
    by (rule length_dropWhile_le)
  from a b assms have t: "?t = s"
    by (intro dropWhile_same_length) simp
  with assms have "length (dropWhile py_isspace (rev s)) = length (rev s)"
    by (simp add: strip_def)
  then have "dropWhile py_isspace (rev s) = rev s"
    by (rule dropWhile_same_length)
  with t show ?thesis
    by (simp add: strip_def)
qed

lemma startswith_lower_lt: "startswith (lower s) CHR ''<'' = startswith s CHR ''<''"
  by (cases s) (simp_all add: startswith_def lower_def py_lower_eq_iff)

lemma endswith_lower_gt: "endswith (lower s) CHR ''>'' = endswith s CHR ''>''"
  by (cases s rule: rev_cases) (simp_all add: endswith_def lower_def py_lower_eq_iff)

lemma lower_butlast_tl: "lower (butlast (tl s)) = butlast (tl (lower s))"
  by (simp add: lower_def map_butlast map_tl)

lemma lower_canon_email: "lower (canon_email x) = canon_email x"
  by (simp add: canon_email_def Let_def lower_butlast_tl lower_lower)

lemma length_canon_email_le: "length (canon_email y) \<le> length (strip y)"
  by (simp add: canon_email_def Let_def lower_def) 

lemma canon_email_fixed_iff:
  assumes "lower y = y"
  shows "canon_email y = y \<longleftrightarrow>
           strip y = y \<and> \<not> (startswith y CHR ''<'' \<and> endswith y CHR ''>'')"
proof
  assume fixed: "canon_email y = y"
  have "length y \<le> length (strip y)"
    using length_canon_email_le [of y] fixed by simp
  with length_strip_le [of y] have s: "strip y = y"
    by (intro strip_same_length) simp
  have "\<not> (startswith y CHR ''<'' \<and> endswith y CHR ''>'')"
  proof
    assume e: "startswith y CHR ''<'' \<and> endswith y CHR ''>''"
    then have "y \<noteq> []"
      by (auto simp: startswith_def)
    then have "length (butlast (tl y)) < length y"
      by (cases y) simp_all
    then have "butlast (tl y) \<noteq> y"
      by (metis less_irrefl)
    moreover from e s assms have "canon_email y = butlast (tl y)"
      by (simp add: canon_email_def)
    ultimately show False
      using fixed by simp
  qed
  with s show "strip y = y \<and> \<not> (startswith y CHR ''<'' \<and> endswith y CHR ''>'')"
    by simp
next
  assume "strip y = y \<and> \<not> (startswith y CHR ''<'' \<and> endswith y CHR ''>'')"
  with assms show "canon_email y = y"
    by (auto simp: canon_email_def)
qed

section \<open>Claims about the canonicalizer\<close>

text \<open>
  C2, as stated, fails: \<open>canon_email\<close> strips the white space before it strips the one
  layer of angle brackets, so \<open>< a >\<close> becomes \<open>a\<close> with a blank on either side, which a second
  pass strips; and of two layers of brackets the second pass strips the second.
\<close>

theorem canon_email_not_idempotent:
  "canon_email ''< a >'' = '' a '' \<and> canon_email '' a '' = ''a''
   \<and> canon_email (canon_email ''< a >'') \<noteq> canon_email ''< a >''
   \<and> canon_email (canon_email ''<<a@b.co>>'') \<noteq> canon_email ''<<a@b.co>>''"
  by code_simp

text \<open>
  C2, amended. \<open>canon_email(canon_email(x)) == canon_email(x)\<close> holds exactly for the strings
  \<open>x\<close> whose canonical form has no white space at either end and is not itself enclosed
  in angle brackets.
\<close>

theorem canon_email_idempotent_iff:
  "canon_email (canon_email x) = canon_email x \<longleftrightarrow>
     strip (canon_email x) = canon_email x
     \<and> \<not> (startswith (canon_email x) CHR ''<'' \<and> endswith (canon_email x) CHR ''>'')"
  by (rule canon_email_fixed_iff) (rule lower_canon_email)

theorem canon_email_idempotent_iff_witness:
  "strip (canon_email '' <John@X.org> '') = canon_email '' <John@X.org> ''
   \<and> \<not> (startswith (canon_email '' <John@X.org> '') CHR ''<''
        \<and> endswith (canon_email '' <John@X.org> '') CHR ''>'')
   \<and> canon_email (canon_email '' <John@X.org> '') = canon_email '' <John@X.org> ''"
proof -
  have h: "strip (canon_email '' <John@X.org> '') = canon_email '' <John@X.org> ''
     \<and> \<not> (startswith (canon_email '' <John@X.org> '') CHR ''<''
          \<and> endswith (canon_email '' <John@X.org> '') CHR ''>'')"
    by code_simp
  show ?thesis
    using h canon_email_idempotent_iff [of "'' <John@X.org> ''"] by simp
qed

section \<open>Facts about the registry\<close>

lemma fmdom'_upsert: "fmdom' (upsert now e m) = insert e (fmdom' m)"
  by (auto simp: upsert_def fmdom'I split: option.splits)

lemma fmdom'_fold_upsert: "fmdom' (fold (upsert now) batch m) = fmdom' m \<union> set batch"
  by (induction batch arbitrary: m) (auto simp: fmdom'_upsert)

lemma seen_in_upsert: "seen_in (upsert now e m) t = seen_in m t + (if t = e then 1 else 0)"
  by (simp add: seen_in_def upsert_def split: option.splits)

lemma seen_in_fold_upsert:
  "seen_in (fold (upsert now) batch m) t = seen_in m t + int (count_list batch t)"
  by (induction batch arbitrary: m) (simp_all add: seen_in_upsert)

lemma count_list_distinct: "distinct xs \<Longrightarrow> count_list xs x = (if x \<in> set xs then 1 else 0)"
  by (induction xs) auto

lemma count_list_concat_distinct:
  "\<forall>b \<in> set bs. distinct b \<Longrightarrow>
   count_list (concat bs) t = length (filter (\<lambda>b. t \<in> set b) bs)"
  by (induction bs) (simp_all add: count_list_distinct)

lemma fmlookup_upsert_other: "t \<noteq> e \<Longrightarrow> fmlookup (upsert now e m) t = fmlookup m t"
  by (simp add: upsert_def split: option.splits)

lemma fmlookup_fold_upsert_other:
  "t \<notin> set batch \<Longrightarrow> fmlookup (fold (upsert now) batch m) t = fmlookup m t"
  by (induction batch arbitrary: m) (simp_all add: fmlookup_upsert_other)

lemma emails_run_cmd: "emails (run_cmd c d) = emails d"
  by (cases c) (simp_all add: pause_job_def resume_job_def cancel_job_def delete_job_def
      emails_update_job)

lemma emails_fold_run_cmd: "emails (fold run_cmd cs d) = emails d"
  by (induction cs arbitrary: d) (simp_all add: emails_run_cmd)

section \<open>Facts about the columns that a write leaves alone\<close>

text \<open>
  A reading \<open>g\<close> of a job row that does not look at the column that is written reads the
  same before and after.
\<close>

lemma update_job_keeps:
  assumes "\<And>r. g (f r) = g r" and "\<And>r. jid (f r) = jid r"
  shows "map_option g (db_get (update_job k f d) i) = map_option g (db_get d i)"
  using assms by (simp add: db_get_update_job option.map_comp comp_def)

lemma flush_emails_Some:
  "flush_emails E (Some j) batch d =
     Inr (if batch = [] then d
          else update_job (jid j)
                 (\<lambda>r. r\<lparr>emails_found :=
                           int (fcard (fmdom (fold (upsert (utcnow E)) batch (emails d))))\<rparr>)
                 (d\<lparr>emails := fold (upsert (utcnow E)) batch (emails d)\<rparr>))"
  by (simp add: flush_emails_def Let_def)

lemma flush_emails_None:
  "flush_emails E None batch d = (if batch = [] then Inr d else Inl (AttributeError, d))"
  by (simp add: flush_emails_def Let_def)

lemma flush_emails_emails:
  "flush_emails E (Some j) batch d = Inr d' \<Longrightarrow>
   emails d' = fold (upsert (utcnow E)) batch (emails d)"
  by (auto simp: flush_emails_Some emails_update_job split: if_splits)

lemma flush_emails_keeps:
  assumes "\<And>r n. g (r\<lparr>emails_found := n\<rparr>) = g r"
    and "flush_emails E jo batch d = Inr d'"
  shows "map_option g (db_get d' i) = map_option g (db_get d i)"
proof -
  have e: "db_get (d\<lparr>emails := m\<rparr>) i = db_get d i" for m
    by (simp add: db_get_def)
  show ?thesis
  proof (cases jo)
    case None
    with assms(2) show ?thesis
      by (simp add: flush_emails_None split: if_splits)
  next
    case (Some j)
    with assms(2) show ?thesis
      by (auto simp: flush_emails_Some update_job_keeps assms(1) e split: if_splits)
  qed
qed

lemma update_metrics_keeps:
  assumes "\<And>r n. g (r\<lparr>processed_bytes := n\<rparr>) = g r"
  shows "map_option g (db_get (update_metrics j pb d) i) = map_option g (db_get d i)"
  by (simp add: update_metrics_def update_job_keeps assms)

lemma emails_update_metrics: "emails (update_metrics j pb d) = emails d"
  by (simp add: update_metrics_def emails_update_job)

lemma db_get_update_metrics:
  "jid j = i \<Longrightarrow>
   db_get (update_metrics j pb d) i = map_option (\<lambda>r. r\<lparr>processed_bytes := pb\<rparr>) (db_get d i)"
  by (simp add: update_metrics_def db_get_update_job)

section \<open>Facts about a sequence of flushes\<close>

lemma flush_all_Nil: "flush_all E j [] d = d"
  by (simp add: flush_all_def)

lemma flush_all_Cons:
  "flush_emails E (Some j) b d = Inr d' \<Longrightarrow> flush_all E j (b # bs) d = flush_all E j bs d'"
  by (simp add: flush_all_def)

lemma emails_flush_all:
  "emails (flush_all E j bs d) = fold (upsert (utcnow E)) (concat bs) (emails d)"
proof (induction bs arbitrary: d)
  case Nil
  show ?case by (simp add: flush_all_Nil)
next
  case (Cons b bs)
  obtain d' where f: "flush_emails E (Some j) b d = Inr d'"
    by (simp add: flush_emails_Some)
  show ?case
    by (simp add: flush_all_Cons [OF f] Cons.IH flush_emails_emails [OF f])
qed

lemma flush_all_keeps:
  assumes "\<And>r n. g (r\<lparr>emails_found := n\<rparr>) = g r"
  shows "map_option g (db_get (flush_all E j bs d) i) = map_option g (db_get d i)"
proof (induction bs arbitrary: d)
  case Nil
  show ?case by (simp add: flush_all_Nil)
next
  case (Cons b bs)
  obtain d' where f: "flush_emails E (Some j) b d = Inr d'"
    by (simp add: flush_emails_Some)
  show ?case
    by (simp add: flush_all_Cons [OF f] Cons.IH flush_emails_keeps [OF assms f])
qed

section \<open>Facts about the loop over the emails of a file\<close>

lemma batching_append:
  "batching (xs @ ys) b =
     (fst (batching xs b) @ fst (batching ys (snd (batching xs b))),
      snd (batching ys (snd (batching xs b))))"
  by (induction xs arbitrary: b) (simp_all add: Let_def)

lemma batching_distinct:
  "distinct b \<Longrightarrow>
   (\<forall>x \<in> set (fst (batching toks b)). distinct x) \<and> distinct (snd (batching toks b))"
proof (induction toks arbitrary: b)
  case Nil
  then show ?case by simp
next
  case (Cons x toks)
  have "distinct (List.insert (canon_email x) b)"
    using Cons.prems by simp
  from this Cons.IH [OF this] Cons.IH [of "[]"] show ?case
    by (simp add: Let_def del: distinct_insert)
qed

lemma batching_set:
  "set (concat (fst (batching toks b))) \<union> set (snd (batching toks b)) =
     set b \<union> canon_email ` set toks"
proof (induction toks arbitrary: b)
  case Nil
  show ?case by simp
next
  case (Cons x toks)
  show ?case
  proof (cases "batch_size \<le> length (List.insert (canon_email x) b)")
    case True
    with Cons.IH [of "[]"] show ?thesis
      by (auto simp: Let_def)
  next
    case False
    with Cons.IH [of "List.insert (canon_email x) b"] show ?thesis
      by (auto simp: Let_def)
  qed
qed

text \<open>The loop over the emails never raises, and it flushes the batches of \<^const>\<open>batching\<close>.\<close>

lemma scan_loop_batching:
  "scan_loop E job toks batch d =
     Inr (snd (batching toks batch), flush_all E job (fst (batching toks batch)) d)"
proof (induction toks arbitrary: batch d)
  case Nil
  show ?case by (simp add: flush_all_Nil)
next
  case (Cons x toks)
  obtain d' where f: "flush_emails E (Some job) (List.insert (canon_email x) batch) d = Inr d'"
    by (simp add: flush_emails_Some)
  show ?case
    by (simp add: Let_def f flush_all_Cons [OF f] Cons.IH)
qed

lemma observed_Nil: "observed E [] = []"
  by (simp add: observed_def)

lemma observed_Cons: "observed E (f # files) = observed E [f] @ observed E files"
  by (simp add: observed_def)

lemma observed_take_subset: "set (observed E (take k files)) \<subseteq> set (observed E files)"
  using set_take_subset [of k files] by (auto simp: observed_def)

section \<open>Facts about one pass through the loop over the files\<close>

lemma loop_body_gone:
  "db_get (fold run_cmd cs (w_db st)) i = None \<Longrightarrow>
   loop_body E i f cs st = Break (st\<lparr>w_job := None, w_db := fold run_cmd cs (w_db st)\<rparr>)"
  by (simp add: loop_body_def Let_def)

lemma loop_body_cancelled:
  "db_get (fold run_cmd cs (w_db st)) i = Some j \<Longrightarrow> cancelled j \<Longrightarrow>
   loop_body E i f cs st = Break (st\<lparr>w_job := Some j, w_db := fold run_cmd cs (w_db st)\<rparr>)"
  by (simp add: loop_body_def Let_def)

lemma loop_body_paused:
  "db_get (fold run_cmd cs (w_db st)) i = Some j \<Longrightarrow> \<not> cancelled j \<Longrightarrow> paused j \<Longrightarrow>
   loop_body E i f cs st = Polling (fold run_cmd cs (w_db st))"
  by (simp add: loop_body_def Let_def pause_wait_polling)

lemma loop_body_scans:
  "db_get (fold run_cmd cs (w_db st)) i = Some j \<Longrightarrow> \<not> cancelled j \<Longrightarrow> \<not> paused j \<Longrightarrow>
   loop_body E i f cs st =
     Next (st\<lparr>w_job := Some j,
               w_db := update_metrics j (w_processed st + snd f)
                         (flush_all E j (fst (batching (observed E [f]) (w_batch st)))
                            (fold run_cmd cs (w_db st))),
               w_processed := w_processed st + snd f,
               w_batch := snd (batching (observed E [f]) (w_batch st))\<rparr>)"
  by (simp add: loop_body_def Let_def pause_wait_not_paused scan_loop_batching observed_def
      flush_all_Nil)

section \<open>Facts about the run of the worker from the head of the loop\<close>

lemma worker_from_Nil:
  "worker_from E i [] sched st =
     (case worker_finish E i st of
        Inl (e, dx) \<Rightarrow> Ended (on_error i dx)
      | Inr d' \<Rightarrow> Ended d')"
  by (simp add: worker_from_def)

lemma worker_from_Break:
  "loop_body E i f (case sched of [] \<Rightarrow> [] | x # _ \<Rightarrow> x) st = Break st' \<Longrightarrow>
   worker_from E i (f # files) sched st = worker_from E i [] [] st'"
  by (simp add: worker_from_def)

lemma worker_from_Polling:
  "loop_body E i f (case sched of [] \<Rightarrow> [] | x # _ \<Rightarrow> x) st = Polling dx \<Longrightarrow>
   worker_from E i (f # files) sched st = Hangs dx"
  by (simp add: worker_from_def)

lemma worker_from_Next:
  "loop_body E i f (case sched of [] \<Rightarrow> [] | x # _ \<Rightarrow> x) st = Next st' \<Longrightarrow>
   worker_from E i (f # files) sched st = worker_from E i files (tl sched) st'"
  by (simp add: worker_from_def)

text \<open>The end of the run: what the final flush and the \<open>except\<close> branch leave.\<close>

lemma on_error_absent: "db_get d i = None \<Longrightarrow> on_error i d = d"
  by (simp add: on_error_def)

lemma emails_on_error: "emails (on_error i d) = emails d"
  by (simp add: on_error_def emails_update_job split: option.splits)

lemma worker_from_end_gone:
  assumes "w_job st = None" and "db_get (w_db st) i = None"
  shows "worker_from E i [] sched st = Ended (w_db st)"
  using assms
  by (simp add: worker_from_Nil worker_finish_def flush_emails_None on_error_absent)

lemma worker_from_end_cancelled:
  assumes "w_job st = Some jv" and "db_get (w_db st) i = Some j" and "cancelled j"
  shows "\<exists>d'. flush_emails E (Some jv) (w_batch st) (w_db st) = Inr d'
           \<and> worker_from E i [] sched st = Ended d'"
proof -
  obtain d' where f: "flush_emails E (Some jv) (w_batch st) (w_db st) = Inr d'"
    by (simp add: flush_emails_Some)
  from flush_emails_keeps [where g = cancelled, OF _ f, of i] assms
  have "map_option cancelled (db_get d' i) = Some True"
    by simp
  then obtain j' where "db_get d' i = Some j'" "cancelled j'"
    by (cases "db_get d' i") auto
  with f assms(1) show ?thesis
    by (simp add: worker_from_Nil worker_finish_def)
qed

lemma worker_from_end_done:
  assumes "w_job st = Some jv" and "db_get (w_db st) i = Some j" and "\<not> cancelled j"
  shows "\<exists>d1 j1. flush_emails E (Some jv) (w_batch st) (w_db st) = Inr d1
           \<and> db_get d1 i = Some j1
           \<and> worker_from E i [] sched st =
               Ended (update_metrics j1 (w_processed st)
                        (update_job i (\<lambda>r. r\<lparr>status := ''done''\<rparr>) d1))"
proof -
  obtain d1 where f: "flush_emails E (Some jv) (w_batch st) (w_db st) = Inr d1"
    by (simp add: flush_emails_Some)
  from flush_emails_keeps [where g = cancelled, OF _ f, of i] assms
  have "map_option cancelled (db_get d1 i) = Some False"
    by simp
  then obtain j1 where "db_get d1 i = Some j1" "\<not> cancelled j1"
    by (cases "db_get d1 i") auto
  with f assms(1) show ?thesis
    by (simp add: worker_from_Nil worker_finish_def)
qed

text \<open>
  The registry after a run, ended or not: the worker has taken the emails of the first
  \<open>k\<close> files, for some \<open>k\<close>, has flushed the batches that the loop over the emails
  fills, and has or has not flushed the batch that was left.
\<close>

lemma worker_from_end_reg:
  "\<exists>fin. emails (tables (worker_from E i [] sched st)) =
           fold (upsert (utcnow E)) (if fin then w_batch st else []) (emails (w_db st))"
proof (cases "w_job st")
  case None
  show ?thesis
  proof (cases "w_batch st = []")
    case True
    with None have "emails (tables (worker_from E i [] sched st)) = emails (w_db st)"
      by (simp add: worker_from_Nil worker_finish_def flush_emails_None emails_update_metrics
          emails_update_job split: option.splits)
    then show ?thesis
      by (intro exI [of _ False]) simp
  next
    case False
    with None have "emails (tables (worker_from E i [] sched st)) = emails (w_db st)"
      by (simp add: worker_from_Nil worker_finish_def flush_emails_None emails_on_error)
    then show ?thesis
      by (intro exI [of _ False]) simp
  qed
next
  case (Some jv)
  obtain d1 where f: "flush_emails E (Some jv) (w_batch st) (w_db st) = Inr d1"
    by (simp add: flush_emails_Some)
  with Some have "emails (tables (worker_from E i [] sched st)) = emails d1"
    by (simp add: worker_from_Nil worker_finish_def emails_update_metrics
        emails_update_job split: option.splits)
  with flush_emails_emails [OF f] show ?thesis
    by (intro exI [of _ True]) simp
qed

lemma worker_from_reg:
  "\<exists>k fin. k \<le> length files
     \<and> emails (tables (worker_from E i files sched st)) =
         fold (upsert (utcnow E))
           (concat (fst (batching (observed E (take k files)) (w_batch st))
                    @ (if fin then [snd (batching (observed E (take k files)) (w_batch st))]
                       else [])))
           (emails (w_db st))"
proof (induction files arbitrary: sched st)
  case Nil
  from worker_from_end_reg [of E i sched st] obtain fin where
    "emails (tables (worker_from E i [] sched st)) =
       fold (upsert (utcnow E)) (if fin then w_batch st else []) (emails (w_db st))"
    by blast
  then show ?case
    by (intro exI [of _ 0] exI [of _ fin]) (simp add: observed_Nil)
next
  case (Cons f files)
  let ?cs = "case sched of [] \<Rightarrow> [] | x # _ \<Rightarrow> x"
  let ?d1 = "fold run_cmd ?cs (w_db st)"
  have stop: ?case
    if b: "loop_body E i f ?cs st = Break st'" and e: "emails (w_db st') = emails (w_db st)"
      and wb: "w_batch st' = w_batch st" for st'
  proof -
    from worker_from_end_reg [of E i "[]" st'] obtain fin where
      "emails (tables (worker_from E i [] [] st')) =
         fold (upsert (utcnow E)) (if fin then w_batch st' else []) (emails (w_db st'))"
      by blast
    then show ?thesis
      by (intro exI [of _ 0] exI [of _ fin])
         (simp add: worker_from_Break [OF b] e wb observed_Nil)
  qed
  show ?case
  proof (cases "db_get ?d1 i")
    case None
    from loop_body_gone [OF None, of E f] show ?thesis
      by (rule stop) (simp_all add: emails_fold_run_cmd)
  next
    case (Some j)
    show ?thesis
    proof (cases "cancelled j")
      case True
      from loop_body_cancelled [OF Some True, of E f] show ?thesis
        by (rule stop) (simp_all add: emails_fold_run_cmd)
    next
      case nc: False
      show ?thesis
      proof (cases "paused j")
        case True
        from loop_body_paused [OF Some nc True, of E f]
        have "worker_from E i (f # files) sched st = Hangs ?d1"
          by (rule worker_from_Polling)
        then show ?thesis
          by (intro exI [of _ 0] exI [of _ False]) (simp add: emails_fold_run_cmd observed_Nil)
      next
        case False
        let ?A = "batching (observed E [f]) (w_batch st)"
        let ?st1 = "st\<lparr>w_job := Some j,
               w_db := update_metrics j (w_processed st + snd f)
                         (flush_all E j (fst ?A) ?d1),
               w_processed := w_processed st + snd f,
               w_batch := snd ?A\<rparr>"
        have run: "worker_from E i (f # files) sched st = worker_from E i files (tl sched) ?st1"
          using loop_body_scans [OF Some nc False, of E f] by (rule worker_from_Next)
        from Cons.IH [of "tl sched" ?st1] obtain k fin where
          k: "k \<le> length files"
          and r: "emails (tables (worker_from E i files (tl sched) ?st1)) =
            fold (upsert (utcnow E))
              (concat (fst (batching (observed E (take k files)) (w_batch ?st1))
                    @ (if fin then [snd (batching (observed E (take k files)) (w_batch ?st1))]
                       else [])))
              (emails (w_db ?st1))"
          by blast
        have o: "observed E (take (Suc k) (f # files)) = observed E [f] @ observed E (take k files)"
          using observed_Cons [of E f "take k files"] by simp
        have "emails (tables (worker_from E i (f # files) sched st)) =
            fold (upsert (utcnow E))
              (concat (fst (batching (observed E (take (Suc k) (f # files))) (w_batch st))
                    @ (if fin then [snd (batching (observed E (take (Suc k) (f # files)))
                                           (w_batch st))]
                       else [])))
              (emails (w_db st))"
          unfolding run r o batching_append
          by (simp add: emails_update_metrics emails_flush_all emails_fold_run_cmd)
        with k show ?thesis
          by (intro exI [of _ "Suc k"] exI [of _ fin]) simp
      qed
    qed
  qed
qed

lemma job_batches_distinct: "\<forall>b \<in> set (job_batches toks fin). distinct b"
  using batching_distinct [of "[]" toks] by (auto simp: job_batches_def)

lemma job_batches_subset: "set (concat (job_batches toks fin)) \<subseteq> canon_email ` set toks"
  using batching_set [of toks "[]"] by (auto simp: job_batches_def)

lemma job_batches_all: "set (concat (job_batches toks True)) = canon_email ` set toks"
  using batching_set [of toks "[]"] by (auto simp: job_batches_def)

lemma worker_outcome_reg:
  "\<exists>k fin. k \<le> length (iter_files E server_path)
     \<and> emails (tables (worker_outcome E sched i server_path d)) =
         fold (upsert (utcnow E))
           (concat (job_batches (observed E (take k (iter_files E server_path))) fin))
           (emails d)"
proof (cases "db_get d i")
  case None
  then have "emails (tables (worker_outcome E sched i server_path d)) = emails d"
    by (simp add: worker_outcome_def)
  then show ?thesis
    by (intro exI [of _ 0] exI [of _ False]) (simp add: job_batches_def observed_Nil)
next
  case (Some j)
  let ?st0 = "\<lparr>w_job = Some j,
              w_db = update_job i (\<lambda>r. r\<lparr>status := ''running'', processed_bytes := 0\<rparr>) d,
              w_processed = 0, w_batch = []\<rparr>"
  have run: "worker_outcome E sched i server_path d =
      worker_from E i (iter_files E server_path) sched ?st0"
    using Some by (simp add: worker_outcome_def)
  let ?files = "iter_files E server_path"
  from worker_from_reg [of ?files E i sched ?st0] obtain k fin where
    k: "k \<le> length ?files"
    and r: "emails (tables (worker_from E i ?files sched ?st0)) =
         fold (upsert (utcnow E))
           (concat (fst (batching (observed E (take k ?files)) (w_batch ?st0))
                    @ (if fin then [snd (batching (observed E (take k ?files)) (w_batch ?st0))]
                       else [])))
           (emails (w_db ?st0))"
    by blast
  have "emails (tables (worker_outcome E sched i server_path d)) =
       fold (upsert (utcnow E)) (concat (job_batches (observed E (take k ?files)) fin))
         (emails d)"
    unfolding run r by (simp add: job_batches_def emails_update_job)
  with k show ?thesis
    by blast
qed

section \<open>Facts about a worker that is left alone\<close>

lemma keeps_Some:
  "map_option g x = map_option g (Some j) \<Longrightarrow> \<exists>j'. x = Some j' \<and> g j' = g j"
  by (cases x) auto

lemma worker_from_quiet:
  assumes "db_get (w_db st) i = Some j" and "\<not> paused j" and "\<not> cancelled j"
    and "w_job st \<noteq> None"
  shows "\<exists>d' j'. worker_from E i files [] st = Ended d'
           \<and> db_get d' i = Some j' \<and> status j' = ''done''
           \<and> processed_bytes j' = w_processed st + sum_list (map snd files)
           \<and> emails d' =
               fold (upsert (utcnow E))
                 (concat (fst (batching (observed E files) (w_batch st))
                          @ [snd (batching (observed E files) (w_batch st))]))
                 (emails (w_db st))"
  using assms
proof (induction files arbitrary: st j)
  case Nil
  from Nil.prems(4) obtain jv where jv: "w_job st = Some jv"
    by auto
  from worker_from_end_done [OF jv Nil.prems(1) Nil.prems(3), of E "[]"] obtain d1 j1 where
    f: "flush_emails E (Some jv) (w_batch st) (w_db st) = Inr d1"
    and g1: "db_get d1 i = Some j1"
    and run: "worker_from E i [] [] st =
               Ended (update_metrics j1 (w_processed st)
                        (update_job i (\<lambda>r. r\<lparr>status := ''done''\<rparr>) d1))"
    by blast
  let ?d' = "update_metrics j1 (w_processed st) (update_job i (\<lambda>r. r\<lparr>status := ''done''\<rparr>) d1)"
  have "jid j1 = i"
    using g1 by (rule db_get_jid)
  then have "db_get ?d' i = Some (j1\<lparr>status := ''done'', processed_bytes := w_processed st\<rparr>)"
    using g1 by (simp add: db_get_update_metrics db_get_update_job)
  moreover have "emails ?d' = fold (upsert (utcnow E)) (w_batch st) (emails (w_db st))"
    using flush_emails_emails [OF f] by (simp add: emails_update_metrics emails_update_job)
  ultimately show ?case
    using run by (simp add: observed_Nil)
next
  case (Cons f files)
  let ?A = "batching (observed E [f]) (w_batch st)"
  let ?st1 = "st\<lparr>w_job := Some j,
         w_db := update_metrics j (w_processed st + snd f)
                   (flush_all E j (fst ?A) (fold run_cmd [] (w_db st))),
         w_processed := w_processed st + snd f,
         w_batch := snd ?A\<rparr>"
  have g0: "db_get (fold run_cmd [] (w_db st)) i = Some j"
    using Cons.prems(1) by simp
  have "loop_body E i f (case [] of [] \<Rightarrow> [] | x # _ \<Rightarrow> x) st = Next ?st1"
    using loop_body_scans [OF g0 Cons.prems(3) Cons.prems(2), of E f] by simp
  from worker_from_Next [OF this]
  have run: "worker_from E i (f # files) [] st = worker_from E i files [] ?st1"
    by simp
  have "map_option (\<lambda>r. (paused r, cancelled r)) (db_get (w_db ?st1) i) =
        map_option (\<lambda>r. (paused r, cancelled r)) (Some j)"
    using Cons.prems(1) by (simp add: update_metrics_keeps flush_all_keeps)
  from keeps_Some [OF this] obtain j1 where
    g1: "db_get (w_db ?st1) i = Some j1" and "\<not> paused j1" "\<not> cancelled j1"
    using Cons.prems(2,3) by auto
  moreover have "w_job ?st1 \<noteq> None"
    by simp
  ultimately obtain d' j' where
    r: "worker_from E i files [] ?st1 = Ended d'"
    and g': "db_get d' i = Some j'" "status j' = ''done''"
      "processed_bytes j' = w_processed ?st1 + sum_list (map snd files)"
    and e: "emails d' =
               fold (upsert (utcnow E))
                 (concat (fst (batching (observed E files) (w_batch ?st1))
                          @ [snd (batching (observed E files) (w_batch ?st1))]))
                 (emails (w_db ?st1))"
    using Cons.IH [of ?st1 j1] by blast
  have "emails d' =
      fold (upsert (utcnow E))
        (concat (fst (batching (observed E (f # files)) (w_batch st))
                 @ [snd (batching (observed E (f # files)) (w_batch st))]))
        (emails (w_db st))"
    unfolding e observed_Cons [of E f files] batching_append
    by (simp add: emails_update_metrics emails_flush_all)
  with r g' show ?case
    unfolding run by (simp add: add.assoc)
qed

lemma worker_outcome_quiet:
  assumes g: "db_get d i = Some j" and np: "\<not> paused j" and nc: "\<not> cancelled j"
  shows "\<exists>d' j'. worker_outcome E [] i server_path d = Ended d'
           \<and> db_get d' i = Some j' \<and> status j' = ''done''
           \<and> processed_bytes j' = sum_list (map snd (iter_files E server_path))
           \<and> emails d' =
               fold (upsert (utcnow E))
                 (concat (job_batches (observed E (iter_files E server_path)) True))
                 (emails d)"
proof -
  let ?d0 = "update_job i (\<lambda>r. r\<lparr>status := ''running'', processed_bytes := 0\<rparr>) d"
  let ?st0 = "\<lparr>w_job = Some j, w_db = ?d0, w_processed = 0, w_batch = []\<rparr>"
  let ?j0 = "j\<lparr>status := ''running'', processed_bytes := 0\<rparr>"
  have run: "worker_outcome E [] i server_path d =
      worker_from E i (iter_files E server_path) [] ?st0"
    using g by (simp add: worker_outcome_def)
  have g0: "db_get (w_db ?st0) i = Some ?j0"
    using g by (simp add: db_get_update_job)
  have "\<not> paused ?j0" "\<not> cancelled ?j0" "w_job ?st0 \<noteq> None"
    using np nc by simp_all
  from worker_from_quiet [OF g0 this, of E "iter_files E server_path"]
  show ?thesis
    unfolding run by (simp add: job_batches_def emails_update_job)
qed

lemma worker_run_quiet:
  assumes g: "db_get d i = Some j" and np: "\<not> paused j" and nc: "\<not> cancelled j"
  shows "\<exists>d' j'. worker_run E [] i server_path d = Some d'
           \<and> db_get d' i = Some j' \<and> status j' = ''done''
           \<and> processed_bytes j' = sum_list (map snd (iter_files E server_path))
           \<and> emails d' =
               fold (upsert (utcnow E))
                 (concat (job_batches (observed E (iter_files E server_path)) True))
                 (emails d)"
  using worker_outcome_quiet [OF assms, of E server_path] by (auto simp: worker_run_def)

text \<open>A job with fewer than \<^const>\<open>batch_size\<close> tokens flushes once, at its end.\<close>

lemma batching_small:
  assumes "distinct b" and "card (set b \<union> canon_email ` set toks) < batch_size"
  shows "fst (batching toks b) = []"
  using assms
proof (induction toks arbitrary: b)
  case Nil
  then show ?case by simp
next
  case (Cons x toks)
  let ?b = "List.insert (canon_email x) b"
  have sub: "set ?b \<subseteq> set b \<union> canon_email ` set (x # toks)"
    by auto
  have d: "distinct ?b"
    using Cons.prems(1) by simp
  then have "length ?b = card (set ?b)"
    by (rule distinct_card [symmetric])
  also have "\<dots> \<le> card (set b \<union> canon_email ` set (x # toks))"
    by (intro card_mono sub) simp
  finally have small: "\<not> batch_size \<le> length ?b"
    using Cons.prems(2) by simp
  have "set ?b \<union> canon_email ` set toks = set b \<union> canon_email ` set (x # toks)"
    by auto
  with Cons.prems(2) have "card (set ?b \<union> canon_email ` set toks) < batch_size"
    by simp
  from Cons.IH [OF d this] small show ?case
    by (simp add: Let_def)
qed

lemma job_batches_small:
  assumes "card (canon_email ` set toks) < batch_size"
  shows "\<exists>b. job_batches toks True = [b] \<and> distinct b \<and> set b = canon_email ` set toks"
proof -
  have "fst (batching toks []) = []"
    using assms by (intro batching_small) simp_all
  moreover from this have "set (snd (batching toks [])) = canon_email ` set toks"
    using batching_set [of toks "[]"] by simp
  moreover have "distinct (snd (batching toks []))"
    using batching_distinct [of "[]" toks] by simp
  ultimately show ?thesis
    by (simp add: job_batches_def)
qed

lemma demo_observed:
  "observed demo_fs (iter_files demo_fs ''/one'')
     = [''John.Doe@Example.COM'', ''jane@sub.example.org'']"
  "observed demo_fs (iter_files demo_fs ''/data'') = [''bob@example.org'']"
  "observed demo_fs (iter_files demo_fs ''/dup'') = [''a@b.co'', ''A@B.co'']"
  "observed demo_fs (iter_files demo_fs ''/two'') = [''a@b.co'', ''c@d.org'']"
  by (simp_all add: observed_def demo_facts)

section \<open>Claims about the worker\<close>

text \<open>
  C6. The matches in \<open>Contact: John.Doe@Example.COM and <jane@sub.example.org>\<close>,
  canonicalized, are \<open>john.doe@example.com\<close> and \<open>jane@sub.example.org\<close>; and a job over a
  directory that holds this one file, started on an empty registry, leaves a registry of
  exactly these two tokens, each with \<open>seen_count\<close> 1.
\<close>

theorem scenario_A:
  "map canon_email (finditer ''Contact: John.Doe@Example.COM and <jane@sub.example.org>'')
     = [''john.doe@example.com'', ''jane@sub.example.org'']
   \<and> fmdom' (emails (submitted ''/one'')) = {}
   \<and> map_option
       (\<lambda>d. (fmdom' (emails d), seen d ''john.doe@example.com'', seen d ''jane@sub.example.org''))
       (worker_run demo_fs [] 1 ''/one'' (submitted ''/one''))
     = Some ({''john.doe@example.com'', ''jane@sub.example.org''}, 1, 1)"
  by (simp only: demo_run_one)
     (simp add: demo_facts demo_finditer seen_def seen_in_def insert_commute)

text \<open>
  C7. A job that runs to its end with no control command coming in ends with status
  \<open>done\<close> and with \<open>processed_bytes\<close> the sum of the sizes of all enumerated files, those
  that do not look like text among them; the tokens it adds to the registry are those of
  the files that look like text. For \<open>/data\<close>, with \<open>b.png\<close> of 10 and \<open>c.txt\<close> of 20
  bytes: 30 bytes and the one token of \<open>c.txt\<close>.
\<close>

theorem processed_bytes_counts_every_file:
  assumes "db_get d i = Some j" and "\<not> paused j" and "\<not> cancelled j"
  shows "\<exists>d'. worker_run E [] i server_path d = Some d'
           \<and> map_option processed_bytes (db_get d' i)
               = Some (sum_list (map snd (iter_files E server_path)))
           \<and> map_option status (db_get d' i) = Some ''done''
           \<and> fmdom' (emails d') =
               fmdom' (emails d) \<union> canon_email ` set (observed E (iter_files E server_path))"
proof -
  from worker_run_quiet [OF assms, of E server_path] obtain d' j' where
    "worker_run E [] i server_path d = Some d'" "db_get d' i = Some j'"
    "status j' = ''done''"
    "processed_bytes j' = sum_list (map snd (iter_files E server_path))"
    "emails d' =
       fold (upsert (utcnow E))
         (concat (job_batches (observed E (iter_files E server_path)) True)) (emails d)"
    by blast
  then show ?thesis
    by (simp add: fmdom'_fold_upsert job_batches_all del: set_concat)
qed

theorem processed_bytes_counts_every_file_witness:
  "db_get (submitted ''/data'') 1 = Some (queued_job 30)
   \<and> \<not> paused (queued_job 30) \<and> \<not> cancelled (queued_job 30)
   \<and> iter_files demo_fs ''/data'' = [(''/data/b.png'', 10), (''/data/c.txt'', 20)]
   \<and> \<not> looks_like_text ''/data/b.png'' \<and> looks_like_text ''/data/c.txt''
   \<and> (\<exists>d'. worker_run demo_fs [] 1 ''/data'' (submitted ''/data'') = Some d'
          \<and> map_option processed_bytes (db_get d' 1) = Some 30
          \<and> map_option status (db_get d' 1) = Some ''done''
          \<and> fmdom' (emails d') = {''bob@example.org''})"
proof -
  have h1: "db_get (submitted ''/data'') 1 = Some (queued_job 30)"
    by (simp add: demo_facts db_get_def queued_job_def)
  have h2: "\<not> paused (queued_job 30)" and h3: "\<not> cancelled (queued_job 30)"
    by (simp_all add: queued_job_def)
  from processed_bytes_counts_every_file [OF h1 h2 h3, of demo_fs "''/data''"]
  have "\<exists>d'. worker_run demo_fs [] 1 ''/data'' (submitted ''/data'') = Some d'
          \<and> map_option processed_bytes (db_get d' 1) = Some 30
          \<and> map_option status (db_get d' 1) = Some ''done''
          \<and> fmdom' (emails d') = {''bob@example.org''}"
    unfolding demo_observed
    by (simp add: demo_canon demo_files_data demo_submitted_data)
  with h1 h2 h3 show ?thesis
    by (simp add: demo_files_data demo_looks)
qed

section \<open>Facts about the counts of the registry\<close>

lemma seen_flush_all:
  "seen (flush_all E j batches d) t = seen d t + int (count_list (concat batches) t)"
  by (simp add: seen_def emails_flush_all seen_in_fold_upsert)

lemma seen_job_batches:
  assumes "emails d' = fold (upsert now) (concat (job_batches toks fin)) (emails d)"
  shows "seen d' t = seen d t + int (length (filter (\<lambda>b. t \<in> set b) (job_batches toks fin)))"
  using assms job_batches_distinct [of toks fin]
  by (simp add: seen_def seen_in_fold_upsert count_list_concat_distinct del: set_concat)

lemma demo_job_batches_dup:
  "job_batches (observed demo_fs (iter_files demo_fs ''/dup'')) True = [[''a@b.co'']]"
  unfolding demo_observed by (simp add: job_batches_def demo_canon batch_size_def)

section \<open>Claims about the registry and the stop of the engine\<close>

text \<open>
  C1, as stated, fails: a job whose one file holds the same canonical address twice
  raises \<open>seen_count\<close> of that address from 0 to 1, not to 2. The batch is a set, and a
  flush adds 1 for each of its members.
\<close>

theorem duplicates_in_a_job_counted_once:
  "seen (submitted ''/dup'') ''a@b.co'' = 0
   \<and> map canon_email (observed demo_fs (iter_files demo_fs ''/dup'')) = [''a@b.co'', ''a@b.co'']
   \<and> map_option (\<lambda>d. seen d ''a@b.co'') (worker_run demo_fs [] 1 ''/dup'' (submitted ''/dup''))
       = Some 1"
  by (simp only: demo_run_dup)
     (simp add: demo_facts observed_def seen_def seen_in_def)

text \<open>
  C1, amended. For every token \<open>t\<close>, \<open>seen_count\<close> of \<open>t\<close> is the number of times \<open>t\<close> was
  upserted: flushing batches that hold \<open>t\<close> \<open>N\<close> times in all raises it by exactly \<open>N\<close>,
  whatever the batches are. A job does not upsert \<open>t\<close> once for each observation. It
  collects the canonical tokens that it observes in a set, which it flushes and empties
  when it holds 2000 tokens and flushes once more at its end; so the run of a job,
  whatever commands come in and whether it ends or not, raises \<open>seen_count\<close> of \<open>t\<close> by
  the number of flushed batches that hold \<open>t\<close>, the batches being those of the first \<open>k\<close>
  files, for some \<open>k\<close>, with or without the last one. For a job that is left alone they
  are those of all files with the last one. No batch holds a token twice, every
  observed token is in a batch, and a job that observes fewer than 2000 distinct tokens
  flushes one batch: it raises \<open>seen_count\<close> of each token that it observed by 1, however
  often it observed it.
\<close>

theorem seen_count_counts_upserts:
  "(\<forall>t. seen (flush_all E j batches d) t = seen d t + int (count_list (concat batches) t))
   \<and> (\<exists>k fin. k \<le> length (iter_files E server_path)
        \<and> (\<forall>t. seen (tables (worker_outcome E sched i server_path d)) t =
                 seen d t
                 + int (length (filter (\<lambda>b. t \<in> set b)
                          (job_batches (observed E (take k (iter_files E server_path))) fin)))))
   \<and> (db_get d i = Some jb \<and> \<not> paused jb \<and> \<not> cancelled jb \<longrightarrow>
        (\<exists>d'. worker_run E [] i server_path d = Some d'
           \<and> (\<forall>t. seen d' t =
                    seen d t
                    + int (length (filter (\<lambda>b. t \<in> set b)
                             (job_batches (observed E (iter_files E server_path)) True))))))
   \<and> list_all distinct (job_batches toks final)
   \<and> set (concat (job_batches toks True)) = canon_email ` set toks
   \<and> (card (canon_email ` set toks) < batch_size \<longrightarrow>
        (\<exists>b. job_batches toks True = [b] \<and> set b = canon_email ` set toks))"
proof -
  have a: "\<forall>t. seen (flush_all E j batches d) t = seen d t + int (count_list (concat batches) t)"
    by (simp add: seen_flush_all)
  have b: "\<exists>k fin. k \<le> length (iter_files E server_path)
        \<and> (\<forall>t. seen (tables (worker_outcome E sched i server_path d)) t =
                 seen d t
                 + int (length (filter (\<lambda>b. t \<in> set b)
                          (job_batches (observed E (take k (iter_files E server_path))) fin))))"
  proof -
    from worker_outcome_reg [of E server_path sched i d] obtain k fin where
      "k \<le> length (iter_files E server_path)"
      "emails (tables (worker_outcome E sched i server_path d)) =
         fold (upsert (utcnow E))
           (concat (job_batches (observed E (take k (iter_files E server_path))) fin))
           (emails d)"
      by blast
    then show ?thesis
      by (blast intro: seen_job_batches)
  qed
  have c: "\<exists>d'. worker_run E [] i server_path d = Some d'
           \<and> (\<forall>t. seen d' t =
                    seen d t
                    + int (length (filter (\<lambda>b. t \<in> set b)
                             (job_batches (observed E (iter_files E server_path)) True))))"
    if "db_get d i = Some jb" "\<not> paused jb" "\<not> cancelled jb"
  proof -
    from worker_run_quiet [OF that, of E server_path] obtain d' where
      "worker_run E [] i server_path d = Some d'"
      "emails d' =
         fold (upsert (utcnow E))
           (concat (job_batches (observed E (iter_files E server_path)) True)) (emails d)"
      by blast
    then show ?thesis
      by (blast intro: seen_job_batches)
  qed
  have e: "list_all distinct (job_batches toks final)"
    using job_batches_distinct [of toks final] by (simp add: list_all_iff)
  have f: "\<exists>b. job_batches toks True = [b] \<and> set b = canon_email ` set toks"
    if "card (canon_email ` set toks) < batch_size"
    using job_batches_small [OF that] by blast
  from a b c e f job_batches_all [of toks] show ?thesis
    by blast
qed

theorem seen_count_counts_upserts_witness:
  "db_get (submitted ''/dup'') 1 = Some (queued_job 14)
   \<and> \<not> paused (queued_job 14) \<and> \<not> cancelled (queued_job 14)
   \<and> card (canon_email ` set [''a@b.co'', ''A@B.co'']) < batch_size
   \<and> (\<exists>d'. worker_run demo_fs [] 1 ''/dup'' (submitted ''/dup'') = Some d'
          \<and> seen d' ''a@b.co'' = seen (submitted ''/dup'') ''a@b.co'' + 1
          \<and> seen d' ''c@d.org'' = seen (submitted ''/dup'') ''c@d.org'')
   \<and> (\<exists>b. job_batches [''a@b.co'', ''A@B.co''] True = [b] \<and> set b = {''a@b.co''})"
proof -
  have h1: "db_get (submitted ''/dup'') 1 = Some (queued_job 14)"
    by (simp add: demo_facts db_get_def queued_job_def)
  have h2: "\<not> paused (queued_job 14)" and h3: "\<not> cancelled (queued_job 14)"
    by (simp_all add: queued_job_def)
  have h4: "card (canon_email ` set [''a@b.co'', ''A@B.co'']) < batch_size"
    by (simp add: demo_canon batch_size_def)
  note inst = seen_count_counts_upserts [of demo_fs _ _ "submitted ''/dup''" "''/dup''" _ 1
      "queued_job 14" "[''a@b.co'', ''A@B.co'']"]
  from inst h1 h2 h3 obtain d' where
    "worker_run demo_fs [] 1 ''/dup'' (submitted ''/dup'') = Some d'"
    "\<forall>t. seen d' t = seen (submitted ''/dup'') t
            + int (length (filter (\<lambda>b. t \<in> set b)
                     (job_batches (observed demo_fs (iter_files demo_fs ''/dup'')) True)))"
    by blast
  then have r: "\<exists>d'. worker_run demo_fs [] 1 ''/dup'' (submitted ''/dup'') = Some d'
      \<and> seen d' ''a@b.co'' = seen (submitted ''/dup'') ''a@b.co'' + 1
      \<and> seen d' ''c@d.org'' = seen (submitted ''/dup'') ''c@d.org''"
    by (simp add: demo_job_batches_dup)
  from inst h4 have "\<exists>b. job_batches [''a@b.co'', ''A@B.co''] True = [b]
      \<and> set b = canon_email ` set [''a@b.co'', ''A@B.co'']"
    by blast
  then have s: "\<exists>b. job_batches [''a@b.co'', ''A@B.co''] True = [b] \<and> set b = {''a@b.co''}"
    by (simp add: demo_canon)
  from h1 h2 h3 h4 r s show ?thesis
    by blast
qed

text \<open>
  C4, as stated, fails: a cancel that comes in between the two files of \<open>/two\<close> stops the
  worker before the second file, and the final flush then writes the batch of the first
  file to the registry, which was empty.
\<close>

theorem cancel_flushes_partial_batch:
  "fmdom' (emails (submitted ''/two'')) = {}
   \<and> map_option (\<lambda>d. (map_option status (db_get d 1), map_option processed_bytes (db_get d 1),
                      fmdom' (emails d), seen d ''a@b.co''))
       (worker_run demo_fs [[], [Cancel 1]] 1 ''/two'' (submitted ''/two''))
     = Some (Some ''cancelled'', Some 6, {''a@b.co''}, 1)"
  by (simp only: demo_run_cancel)
     (simp add: demo_facts seen_def seen_in_def db_get_def queued_job_def)

text \<open>
  C4, amended. When the engine, at the head of the loop for a file, finds the job record
  gone, it stops there and ends with the tables as it found them: neither that file nor
  a later one is scanned, and the registry holds nothing of the batch that was not
  flushed. When it finds the cancelled flag of the job set, it stops there as well and
  writes neither \<open>status\<close> nor \<open>processed_bytes\<close> again; but it does flush the batch it
  holds: when it ends, the registry is the registry it found with every token of the
  batch upserted.
\<close>

theorem stop_at_head_of_file:
  "(db_get (fold run_cmd cs (w_db st)) i = None \<longrightarrow>
      worker_from E i (f # files) (cs # sched) st = Ended (fold run_cmd cs (w_db st))
      \<and> emails (fold run_cmd cs (w_db st)) = emails (w_db st))
   \<and> (db_get (fold run_cmd cs (w_db st)) i = Some j \<and> cancelled j \<longrightarrow>
      (\<exists>d'. worker_from E i (f # files) (cs # sched) st = Ended d'
          \<and> emails d' = fold (upsert (utcnow E)) (w_batch st) (emails (w_db st))
          \<and> set (w_batch st) \<subseteq> fmdom' (emails d')
          \<and> map_option status (db_get d' i) = Some (status j)
          \<and> map_option processed_bytes (db_get d' i) = Some (processed_bytes j)))"
proof -
  let ?d1 = "fold run_cmd cs (w_db st)"
  have a: "worker_from E i (f # files) (cs # sched) st = Ended ?d1" if g: "db_get ?d1 i = None"
  proof -
    let ?st1 = "st\<lparr>w_job := None, w_db := ?d1\<rparr>"
    have "loop_body E i f (case cs # sched of [] \<Rightarrow> [] | x # _ \<Rightarrow> x) st = Break ?st1"
      using loop_body_gone [OF g, of E f] by simp
    from worker_from_Break [OF this]
    have "worker_from E i (f # files) (cs # sched) st = worker_from E i [] [] ?st1" .
    also have "\<dots> = Ended (w_db ?st1)"
      using g by (intro worker_from_end_gone) simp_all
    finally show ?thesis
      by simp
  qed
  have b: "\<exists>d'. worker_from E i (f # files) (cs # sched) st = Ended d'
          \<and> emails d' = fold (upsert (utcnow E)) (w_batch st) (emails (w_db st))
          \<and> set (w_batch st) \<subseteq> fmdom' (emails d')
          \<and> map_option status (db_get d' i) = Some (status j)
          \<and> map_option processed_bytes (db_get d' i) = Some (processed_bytes j)"
    if g: "db_get ?d1 i = Some j" and c: "cancelled j"
  proof -
    let ?st1 = "st\<lparr>w_job := Some j, w_db := ?d1\<rparr>"
    have "loop_body E i f (case cs # sched of [] \<Rightarrow> [] | x # _ \<Rightarrow> x) st = Break ?st1"
      using loop_body_cancelled [OF g c, of E f] by simp
    from worker_from_Break [OF this]
    have run: "worker_from E i (f # files) (cs # sched) st = worker_from E i [] [] ?st1" .
    have "w_job ?st1 = Some j" "db_get (w_db ?st1) i = Some j"
      using g by simp_all
    from worker_from_end_cancelled [OF this c, of E "[]"] obtain d' where
      fl: "flush_emails E (Some j) (w_batch st) ?d1 = Inr d'"
      and fin: "worker_from E i [] [] ?st1 = Ended d'"
      by auto
    have e: "emails d' = fold (upsert (utcnow E)) (w_batch st) (emails (w_db st))"
      using flush_emails_emails [OF fl] by (simp add: emails_fold_run_cmd)
    have "map_option status (db_get d' i) = Some (status j)"
      "map_option processed_bytes (db_get d' i) = Some (processed_bytes j)"
      using flush_emails_keeps [where g = status, OF _ fl, of i]
        flush_emails_keeps [where g = processed_bytes, OF _ fl, of i] g
      by simp_all
    with run fin e show ?thesis
      by (simp add: fmdom'_fold_upsert)
  qed
  from a b show ?thesis
    by (simp add: emails_fold_run_cmd)
qed

theorem stop_at_head_of_file_witness:
  "db_get (fold run_cmd [Delete 1] (w_db demo_mid)) 1 = None
   \<and> worker_from demo_fs 1 [(''/two/t2.txt'', 7)] [[Delete 1]] demo_mid
       = Ended \<lparr>jobs = [], emails = fmempty\<rparr>
   \<and> db_get (fold run_cmd [Cancel 1] (w_db demo_mid)) 1
       = Some ((queued_job 13)\<lparr>status := ''cancelled'', processed_bytes := 6, cancelled := True\<rparr>)
   \<and> cancelled ((queued_job 13)\<lparr>status := ''cancelled'', processed_bytes := 6,
                                cancelled := True\<rparr>)
   \<and> (\<exists>d'. worker_from demo_fs 1 [(''/two/t2.txt'', 7)] [[Cancel 1]] demo_mid = Ended d'
          \<and> emails d' = fmupd ''a@b.co'' \<lparr>first_seen_ts = 5, last_seen_ts = 5, seen_count = 1\<rparr>
                          fmempty
          \<and> ''a@b.co'' \<in> fmdom' (emails d')
          \<and> map_option status (db_get d' 1) = Some ''cancelled''
          \<and> map_option processed_bytes (db_get d' 1) = Some 6)"
proof -
  let ?j = "(queued_job 13)\<lparr>status := ''cancelled'', processed_bytes := 6, cancelled := True\<rparr>"
  have h0: "db_get (fold run_cmd [Delete 1] (w_db demo_mid)) 1 = None"
    by (simp add: demo_mid_def delete_job_def db_get_def queued_job_def)
  have h1: "db_get (fold run_cmd [Cancel 1] (w_db demo_mid)) 1 = Some ?j"
    by (simp add: demo_mid_def cancel_job_def update_job_def db_get_def queued_job_def)
  have h2: "cancelled ?j"
    by simp
  from h0 stop_at_head_of_file [of "[Delete 1]" demo_mid 1 demo_fs "(''/two/t2.txt'', 7)" "[]" "[]"]
  have a: "worker_from demo_fs 1 [(''/two/t2.txt'', 7)] [[Delete 1]] demo_mid
       = Ended \<lparr>jobs = [], emails = fmempty\<rparr>"
    by (simp add: demo_mid_def delete_job_def queued_job_def)
  from h1 h2 stop_at_head_of_file [of "[Cancel 1]" demo_mid 1 demo_fs "(''/two/t2.txt'', 7)" "[]"
      "[]" ?j]
  have "\<exists>d'. worker_from demo_fs 1 [(''/two/t2.txt'', 7)] [[Cancel 1]] demo_mid = Ended d'
          \<and> emails d' = fmupd ''a@b.co'' \<lparr>first_seen_ts = 5, last_seen_ts = 5, seen_count = 1\<rparr>
                          fmempty
          \<and> ''a@b.co'' \<in> fmdom' (emails d')
          \<and> map_option status (db_get d' 1) = Some ''cancelled''
          \<and> map_option processed_bytes (db_get d' 1) = Some 6"
    by (simp add: demo_mid_def upsert_def demo_utcnow)
  with h0 a h1 h2 show ?thesis
    by blast
qed

section \<open>Facts about the pattern\<close>

lemma greedy_SomeD:
  "greedy lo n s k = Some r \<Longrightarrow> \<exists>m. lo \<le> m \<and> m \<le> n \<and> k (drop m s) = Some r"
proof (induction n)
  case 0
  then show ?case
    by (auto split: if_splits)
next
  case (Suc n)
  show ?case
  proof (cases "k (drop (Suc n) s)")
    case None
    with Suc.prems have "greedy lo n s k = Some r"
      by (simp split: if_splits)
    from Suc.IH [OF this] obtain m where "lo \<le> m" "m \<le> n" "k (drop m s) = Some r"
      by blast
    then have "lo \<le> m \<and> m \<le> Suc n \<and> k (drop m s) = Some r"
      by simp
    then show ?thesis ..
  next
    case (Some r')
    with Suc.prems have "\<not> Suc n < lo" "k (drop (Suc n) s) = Some r"
      by (simp_all split: if_splits)
    then have "lo \<le> Suc n \<and> Suc n \<le> Suc n \<and> k (drop (Suc n) s) = Some r"
      by simp
    then show ?thesis ..
  qed
qed

lemma rep_SomeD:
  assumes "rep cls lo s k = Some r"
  shows "\<exists>u v. s = u @ v \<and> lo \<le> length u \<and> (\<forall>c \<in> set u. cls c) \<and> k v = Some r"
proof -
  from assms obtain m where m: "lo \<le> m" "m \<le> length (takeWhile cls s)" "k (drop m s) = Some r"
    unfolding rep_def by (blast dest: greedy_SomeD)
  have "take m s = take m (takeWhile cls s @ dropWhile cls s)"
    by simp
  also have "\<dots> = take m (takeWhile cls s)"
    using m(2) by (simp del: takeWhile_dropWhile_id)
  finally have "set (take m s) \<subseteq> set (takeWhile cls s)"
    by (simp add: set_take_subset)
  then have "\<forall>c \<in> set (take m s). cls c"
    by (auto dest: set_takeWhileD)
  moreover have "length (take m s) = m"
    using m(2) length_takeWhile_le [of cls s] by simp
  ultimately show ?thesis
    using m(1,3) by (intro exI [of _ "take m s"] exI [of _ "drop m s"]) simp
qed

lemma lit_SomeD: "lit c s k = Some r \<Longrightarrow> \<exists>v. s = c # v \<and> k v = Some r"
  by (auto simp: lit_def split: list.splits if_splits)

lemma email_re_rest_SomeD:
  assumes "email_re_rest s = Some r"
  shows "\<exists>l d t. s = l @ CHR ''@'' # d @ CHR ''.'' # t @ r
           \<and> 1 \<le> length l \<and> (\<forall>c \<in> set l. local_class c)
           \<and> 1 \<le> length d \<and> (\<forall>c \<in> set d. domain_class c)
           \<and> 2 \<le> length t \<and> (\<forall>c \<in> set t. is_alpha c)"
proof -
  from assms [unfolded email_re_rest_def] obtain l s1 where
    l: "s = l @ s1" "1 \<le> length l" "\<forall>c \<in> set l. local_class c"
    and k1: "lit CHR ''@'' s1 (\<lambda>s2. rep domain_class 1 s2 (\<lambda>s3.
               lit CHR ''.'' s3 (\<lambda>s4. rep is_alpha 2 s4 Some))) = Some r"
    by (blast dest: rep_SomeD)
  from lit_SomeD [OF k1] obtain s2 where
    s2: "s1 = CHR ''@'' # s2"
    and k2: "rep domain_class 1 s2 (\<lambda>s3. lit CHR ''.'' s3 (\<lambda>s4. rep is_alpha 2 s4 Some)) = Some r"
    by blast
  from rep_SomeD [OF k2] obtain d s3 where
    d: "s2 = d @ s3" "1 \<le> length d" "\<forall>c \<in> set d. domain_class c"
    and k3: "lit CHR ''.'' s3 (\<lambda>s4. rep is_alpha 2 s4 Some) = Some r"
    by blast
  from lit_SomeD [OF k3] obtain s4 where
    s4: "s3 = CHR ''.'' # s4" and k4: "rep is_alpha 2 s4 Some = Some r"
    by blast
  from rep_SomeD [OF k4] obtain t v where
    t: "s4 = t @ v" "2 \<le> length t" "\<forall>c \<in> set t. is_alpha c" and "Some v = Some r"
    by blast
  then have "s = l @ CHR ''@'' # d @ CHR ''.'' # t @ r"
    using l(1) s2 d(1) s4 by simp
  with l(2,3) d(2,3) t(2,3) show ?thesis
    by blast
qed

lemma class_chars_plain:
  "local_class c \<or> domain_class c \<or> c = CHR ''@'' \<Longrightarrow>
   \<not> py_isspace c \<and> c \<noteq> CHR ''<'' \<and> c \<noteq> CHR ''>''"
proof -
  assume a: "local_class c \<or> domain_class c \<or> c = CHR ''@''"
  let ?n = "of_char c :: nat"
  from a have "(65 \<le> ?n \<and> ?n \<le> 90) \<or> (97 \<le> ?n \<and> ?n \<le> 122) \<or> (48 \<le> ?n \<and> ?n \<le> 57)
      \<or> ?n \<in> {46, 95, 37, 43, 45, 64}"
    by (auto simp: local_class_def domain_class_def is_alpha_def is_digit_def Let_def)
  then have "\<not> py_isspace c \<and> ?n \<noteq> 60 \<and> ?n \<noteq> 62"
    by (auto simp: py_isspace_def Let_def)
  then show ?thesis
    by auto
qed

lemma email_re_match_plain:
  assumes "email_re_match s = Some m"
  shows "m \<noteq> [] \<and> (\<forall>c \<in> set m. \<not> py_isspace c \<and> c \<noteq> CHR ''<'' \<and> c \<noteq> CHR ''>'')"
proof -
  from assms obtain r where r: "email_re_rest s = Some r"
    and m: "m = take (length s - length r) s"
    by (auto simp: email_re_match_def split: option.splits)
  from email_re_rest_SomeD [OF r] obtain l d t where
    s: "s = l @ CHR ''@'' # d @ CHR ''.'' # t @ r"
    and c: "\<forall>c \<in> set l. local_class c" "\<forall>c \<in> set d. domain_class c" "\<forall>c \<in> set t. is_alpha c"
    by blast
  have "s = (l @ CHR ''@'' # d @ CHR ''.'' # t) @ r"
    using s by simp
  then have m': "m = l @ CHR ''@'' # d @ CHR ''.'' # t"
    using m by simp
  have "local_class c \<or> domain_class c \<or> c = CHR ''@''" if "c \<in> set m" for c
    using that c unfolding m' by (auto simp: domain_class_def)
  with class_chars_plain m' show ?thesis
    by blast
qed

lemma dropWhile_plain: "m \<noteq> [] \<Longrightarrow> \<not> P (hd m) \<Longrightarrow> dropWhile P m = m"
  by (cases m) simp_all

lemma strip_plain:
  assumes "m \<noteq> []" and "\<forall>c \<in> set m. \<not> py_isspace c"
  shows "strip m = m"
proof -
  from assms have a: "\<not> py_isspace (hd m)"
    by simp
  from assms have "\<not> py_isspace (last m)"
    by simp
  with assms(1) have b: "\<not> py_isspace (hd (rev m))"
    by (simp add: hd_rev)
  have "dropWhile py_isspace m = m"
    using assms(1) a by (rule dropWhile_plain)
  moreover have "dropWhile py_isspace (rev m) = rev m"
    using assms(1) b by (intro dropWhile_plain) simp_all
  ultimately show ?thesis
    by (simp add: strip_def)
qed

lemma canon_email_plain:
  assumes "m \<noteq> []"
    and "\<forall>c \<in> set m. \<not> py_isspace c \<and> c \<noteq> CHR ''<'' \<and> c \<noteq> CHR ''>''"
  shows "canon_email m = lower m"
proof -
  have "strip m = m"
    using assms by (intro strip_plain) auto
  moreover have "hd m \<noteq> CHR ''<''"
    using assms by simp
  then have "\<not> startswith m CHR ''<''"
    using assms(1) by (cases m) (simp_all add: startswith_def)
  ultimately show ?thesis
    by (simp add: canon_email_def startswith_lower_lt)
qed


section \<open>Facts about the matches that reach the worker\<close>

lemma finditer_from_matches:
  "m \<in> set (finditer_from n s) \<Longrightarrow> \<exists>s'. email_re_match s' = Some m"
proof (induction n s rule: finditer_from.induct)
  case (1 n)
  then show ?case by simp
next
  case (2 n c cs)
  then show ?case by simp
next
  case (3 c cs)
  show ?case
  proof (cases "email_re_match (c # cs)")
    case None
    with 3 show ?thesis by simp
  next
    case (Some m')
    with 3 show ?thesis by auto
  qed
qed

lemma scan_file_matches:
  assumes rg: "\<forall>p ls. rg_lines E p = Some ls \<longrightarrow>
            (\<forall>l \<in> set ls. strip l \<noteq> [] \<longrightarrow> email_re_match (strip l) = Some (strip l))"
    and t: "t \<in> set (scan_file E p)"
  shows "\<exists>s'. email_re_match s' = Some t"
proof (cases "rg_lines E p")
  case (Some ls)
  with t obtain l where "l \<in> set ls" "t = strip l" "strip l \<noteq> []"
    by (auto simp: scan_file_def)
  with rg Some show ?thesis
    by blast
next
  case None
  show ?thesis
  proof (cases "read_text E p")
    case n: None
    with None t show ?thesis
      by (simp add: scan_file_def)
  next
    case (Some content)
    with None t obtain chunk where "t \<in> set (finditer chunk)"
      by (auto simp: scan_file_def)
    then show ?thesis
      unfolding finditer_def by (rule finditer_from_matches)
  qed
qed

lemma observed_matches:
  assumes "\<forall>p ls. rg_lines E p = Some ls \<longrightarrow>
            (\<forall>l \<in> set ls. strip l \<noteq> [] \<longrightarrow> email_re_match (strip l) = Some (strip l))"
    and "t \<in> set (observed E files)"
  shows "\<exists>s'. email_re_match s' = Some t"
proof -
  from assms(2) obtain p where "t \<in> set (scan_file E p)"
    by (auto simp: observed_def split: if_splits)
  with assms(1) show ?thesis
    by (rule scan_file_matches)
qed

lemma match_canon:
  assumes "email_re_match s = Some m"
  shows "canon_email m = lower m \<and> m \<noteq> []"
  using email_re_match_plain [OF assms] canon_email_plain [of m] by blast

lemma demo_rg_lines:
  "strip ''John.Doe@Example.COM\<newline>'' = ''John.Doe@Example.COM''"
  "strip ''jane@sub.example.org\<newline>'' = ''jane@sub.example.org''"
  "email_re_match ''John.Doe@Example.COM'' = Some ''John.Doe@Example.COM''"
  "email_re_match ''jane@sub.example.org'' = Some ''jane@sub.example.org''"
  by code_simp+

lemma demo_rg_facts:
  "iter_files demo_rg ''/one'' = [(''/one/a.txt'', 56)]"
  "scan_file demo_rg ''/one/a.txt'' = [''John.Doe@Example.COM'', ''jane@sub.example.org'']"
  "utcnow demo_rg = 5"
  by (simp_all add: demo_rg_def demo_files_one [symmetric] iter_files_def scan_file_def
      demo_rg_lines demo_utcnow)

lemma demo_outcome_rg:
  "worker_outcome demo_rg [] 1 ''/one'' (submitted ''/one'') =
     Ended \<lparr>jobs = [(queued_job 56)\<lparr>status := ''done'', processed_bytes := 56,
                                      emails_found := 2\<rparr>],
             emails = fmupd ''john.doe@example.com''
                        \<lparr>first_seen_ts = 5, last_seen_ts = 5, seen_count = 1\<rparr>
                        (fmupd ''jane@sub.example.org''
                           \<lparr>first_seen_ts = 5, last_seen_ts = 5, seen_count = 1\<rparr> fmempty)\<rparr>"
  by (simp add: demo_rg_facts demo_submitted_one demo_looks demo_canon worker_defs)

lemma worker_outcome_other:
  assumes "fmlookup (emails (tables (worker_outcome E sched i server_path d))) t
             \<noteq> fmlookup (emails d) t"
  shows "t \<in> canon_email ` set (observed E (iter_files E server_path))"
proof -
  from worker_outcome_reg [of E server_path sched i d] obtain k fin where
    e: "emails (tables (worker_outcome E sched i server_path d)) =
         fold (upsert (utcnow E))
           (concat (job_batches (observed E (take k (iter_files E server_path))) fin))
           (emails d)"
    by blast
  from assms have "t \<in> set (concat (job_batches (observed E (take k (iter_files E server_path))) fin))"
    unfolding e using fmlookup_fold_upsert_other by metis
  with job_batches_subset have "t \<in> canon_email ` set (observed E (take k (iter_files E server_path)))"
    by blast
  with observed_take_subset [of E k "iter_files E server_path"] show ?thesis
    by blast
qed

section \<open>Claim about the tokens of the registry\<close>

text \<open>
  C8. A match of the pattern, at the head of a text or among the matches that \<open>finditer\<close>
  finds in a text, is not empty and is canonicalized to its lower-case form: neither the
  trimming nor the stripping of brackets applies to it. Hence every registry entry that
  a worker creates or updates has a key that is not empty and is all lower case,
  whatever commands come in and whether the worker ends or stays in a pause loop,
  provided that every non-empty stripped line that ripgrep prints, where it is used, is
  a match of the pattern.
\<close>

theorem matches_are_lowercased:
  "(email_re_match s = Some m \<longrightarrow> canon_email m = lower m \<and> m \<noteq> [])
   \<and> (m \<in> set (finditer content) \<longrightarrow> canon_email m = lower m \<and> m \<noteq> [])
   \<and> ((\<forall>p ls. rg_lines E p = Some ls \<longrightarrow>
          (\<forall>l \<in> set ls. strip l \<noteq> [] \<longrightarrow> email_re_match (strip l) = Some (strip l)))
       \<longrightarrow> (\<forall>t. fmlookup (emails (tables (worker_outcome E sched i server_path d))) t
                    \<noteq> fmlookup (emails d) t
              \<longrightarrow> t \<noteq> [] \<and> lower t = t))"
proof -
  have a: "canon_email m = lower m \<and> m \<noteq> []" if "email_re_match s = Some m"
    using that by (rule match_canon)
  have b: "canon_email m = lower m \<and> m \<noteq> []" if "m \<in> set (finditer content)"
  proof -
    from that obtain s' where "email_re_match s' = Some m"
      unfolding finditer_def by (blast dest: finditer_from_matches)
    then show ?thesis
      by (rule match_canon)
  qed
  have c: "t \<noteq> [] \<and> lower t = t"
    if rg: "\<forall>p ls. rg_lines E p = Some ls \<longrightarrow>
          (\<forall>l \<in> set ls. strip l \<noteq> [] \<longrightarrow> email_re_match (strip l) = Some (strip l))"
      and t: "fmlookup (emails (tables (worker_outcome E sched i server_path d))) t
                \<noteq> fmlookup (emails d) t" for t
  proof -
    from worker_outcome_other [OF t] obtain raw where
      raw: "raw \<in> set (observed E (iter_files E server_path))" and tr: "t = canon_email raw"
      by auto
    from observed_matches [OF rg raw] obtain s' where "email_re_match s' = Some raw"
      by blast
    from match_canon [OF this] tr have "t = lower raw" "raw \<noteq> []"
      by simp_all
    then show ?thesis
      by (simp add: lower_lower) (simp add: lower_def)
  qed
  from a b c show ?thesis
    by blast
qed

theorem matches_are_lowercased_witness:
  "email_re_match ''John.Doe@Example.COM and'' = Some ''John.Doe@Example.COM''
   \<and> canon_email ''John.Doe@Example.COM'' = lower ''John.Doe@Example.COM''
   \<and> ''jane@sub.example.org''
       \<in> set (finditer ''Contact: John.Doe@Example.COM and <jane@sub.example.org>'')
   \<and> canon_email ''jane@sub.example.org'' = lower ''jane@sub.example.org''
   \<and> rg_lines demo_rg ''/one/a.txt''
       = Some [''John.Doe@Example.COM\<newline>'', ''jane@sub.example.org\<newline>'']
   \<and> fmlookup (emails (tables (worker_outcome demo_rg [] 1 ''/one'' (submitted ''/one''))))
         ''john.doe@example.com''
       \<noteq> fmlookup (emails (submitted ''/one'')) ''john.doe@example.com''
   \<and> ''john.doe@example.com'' \<noteq> []
   \<and> lower ''john.doe@example.com'' = ''john.doe@example.com''"
proof -
  have h1: "email_re_match ''John.Doe@Example.COM and'' = Some ''John.Doe@Example.COM''"
    by code_simp
  have h2: "''jane@sub.example.org''
       \<in> set (finditer ''Contact: John.Doe@Example.COM and <jane@sub.example.org>'')"
    by (simp add: demo_finditer)
  have h3: "\<forall>p ls. rg_lines demo_rg p = Some ls \<longrightarrow>
          (\<forall>l \<in> set ls. strip l \<noteq> [] \<longrightarrow> email_re_match (strip l) = Some (strip l))"
    by (auto simp: demo_rg_def demo_fs_def demo_rg_lines split: if_splits)
  have h4: "fmlookup (emails (tables (worker_outcome demo_rg [] 1 ''/one'' (submitted ''/one''))))
              ''john.doe@example.com''
            \<noteq> fmlookup (emails (submitted ''/one'')) ''john.doe@example.com''"
    by (simp only: demo_outcome_rg) (simp add: demo_submitted_one)
  have r: "rg_lines demo_rg ''/one/a.txt''
       = Some [''John.Doe@Example.COM\<newline>'', ''jane@sub.example.org\<newline>'']"
    by (simp add: demo_rg_def)
  note inst1 = matches_are_lowercased [of "''John.Doe@Example.COM and''" "''John.Doe@Example.COM''"
      _ demo_rg "[]" 1 "''/one''" "submitted ''/one''"]
  note inst2 = matches_are_lowercased [of _ "''jane@sub.example.org''"
      "''Contact: John.Doe@Example.COM and <jane@sub.example.org>''"]
  from inst1 h1 have a: "canon_email ''John.Doe@Example.COM'' = lower ''John.Doe@Example.COM''"
    by blast
  from inst2 h2 have b: "canon_email ''jane@sub.example.org'' = lower ''jane@sub.example.org''"
    by blast
  from inst1 h3 h4
  have c: "''john.doe@example.com'' \<noteq> [] \<and> lower ''john.doe@example.com'' = ''john.doe@example.com''"
    by blast
  from h1 a h2 b r h4 c show ?thesis
    by blast
qed

section \<open>Facts about the status of a job that an operation spares\<close>


















section \<open>Claim about the terminal statuses\<close>




end
